theory Spec2Isabelle
  imports Main "HOL-Library.Sublist" "HOL-Library.Word"
begin

section \<open>Python strings\<close>

text \<open>
  A Python \<open>str\<close> is a sequence of Unicode code points, so a code point is a natural
  number and a string is a list of them. Literals of the source are written as
  Isabelle string literals and read through \<open>lit\<close>; all of them are ASCII.
\<close>

type_synonym codepoint = nat
type_synonym str = "codepoint list"

definition lit :: "string \<Rightarrow> str" where
  "lit s = map of_char s"

abbreviation NL :: codepoint where "NL \<equiv> 10"
abbreviation SP :: codepoint where "SP \<equiv> 32"
abbreviation APOS :: codepoint where "APOS \<equiv> 39"

text \<open>
  \<open>str.isspace\<close> and \<open>str.strip\<close> use the interpreter's whitespace test, which is
  true of exactly these code points.
\<close>

definition isspace_cp :: "codepoint \<Rightarrow> bool" where
  "isspace_cp c =
     ((9 \<le> c \<and> c \<le> 13) \<or> (28 \<le> c \<and> c \<le> 32) \<or> c = 133 \<or> c = 160 \<or> c = 5760
      \<or> (8192 \<le> c \<and> c \<le> 8202) \<or> c = 8232 \<or> c = 8233 \<or> c = 8239 \<or> c = 8287
      \<or> c = 12288)"

text \<open>
  \<open>str.isalnum\<close> on ASCII is letters and digits. Beyond ASCII it reads the Unicode
  character database of the interpreter, which is no part of this repository: that
  table is the parameter \<open>ext\<close> of everything that tokenizes.
\<close>

definition isalnum_cp :: "(codepoint \<Rightarrow> bool) \<Rightarrow> codepoint \<Rightarrow> bool" where
  "isalnum_cp ext c =
     (if c < 128 then (48 \<le> c \<and> c \<le> 57) \<or> (65 \<le> c \<and> c \<le> 90) \<or> (97 \<le> c \<and> c \<le> 122)
      else ext c)"

text \<open>The table in which no code point beyond ASCII is alphanumeric.\<close>

definition ascii_only :: "codepoint \<Rightarrow> bool" where
  "ascii_only c = False"

text \<open>\<open>s.isspace()\<close>: non-empty and every character is whitespace.\<close>

definition isspace :: "str \<Rightarrow> bool" where
  "isspace s = (s \<noteq> [] \<and> list_all isspace_cp s)"

text \<open>\<open>s.strip()\<close>: leading and trailing whitespace removed.\<close>

definition strip :: "str \<Rightarrow> str" where
  "strip s = rev (dropWhile isspace_cp (rev (dropWhile isspace_cp s)))"

text \<open>\<open>s.endswith(' ')\<close>.\<close>

definition endswith_space :: "str \<Rightarrow> bool" where
  "endswith_space s = (s \<noteq> [] \<and> last s = SP)"

section \<open>The text chunker\<close>

definition MAX_WORDS_PER_CHUNK :: nat where
  "MAX_WORDS_PER_CHUNK = 3"

text \<open>
  \<open>sentence_boundaries = ['.', '!', '?', '|', '\n']\<close>: the fourth entry of the source is
  the ASCII vertical bar, code point 124.
\<close>

definition sentence_boundaries :: "codepoint list" where
  "sentence_boundaries = [46, 33, 63, 124, 10]"

text \<open>The closing characters looked for after a boundary: \<open>" ' ) ] }\<close>.\<close>

definition closers :: "codepoint list" where
  "closers = [34, 39, 41, 93, 125]"

text \<open>
  The \<open>while i < len(text)\<close> loop. The first argument is \<open>text[i:]\<close>, the second
  \<open>current_sentence\<close>, the third \<open>sentences\<close>. The first equation is what follows the
  loop: the remaining text, if any, is the last sentence.
\<close>

fun split_loop :: "str \<Rightarrow> str \<Rightarrow> str list \<Rightarrow> str list" where
  "split_loop [] cur sents = (if cur \<noteq> [] then sents @ [cur] else sents)"
| "split_loop (c # rest) cur sents =
     (if c = NL then split_loop rest [] (sents @ [cur @ [c]])
      else if c \<in> set sentence_boundaries then
        (case rest of
           [] \<Rightarrow> split_loop rest [] (sents @ [cur @ [c]])
         | d # rest' \<Rightarrow>
             if d \<in> set closers then split_loop rest' [] (sents @ [cur @ [c, d]])
             else split_loop rest [] (sents @ [cur @ [c]]))
      else split_loop rest (cur @ [c]) sents)"

definition split_sentences :: "str \<Rightarrow> str list" where
  "split_sentences text = split_loop text [] []"

text \<open>
  The \<open>for char in sentence\<close> loop: \<open>current_word\<close> and \<open>tokens\<close> are the second and
  third arguments; the first equation is the flush of the last word after the loop.
\<close>

definition is_wordchar :: "(codepoint \<Rightarrow> bool) \<Rightarrow> codepoint \<Rightarrow> bool" where
  "is_wordchar ext c = (isalnum_cp ext c \<or> c = APOS)"

fun token_loop :: "(codepoint \<Rightarrow> bool) \<Rightarrow> str \<Rightarrow> str \<Rightarrow> str list \<Rightarrow> str list" where
  "token_loop ext [] word toks = (if word \<noteq> [] then toks @ [word] else toks)"
| "token_loop ext (c # cs) word toks =
     (if is_wordchar ext c then token_loop ext cs (word @ [c]) toks
      else token_loop ext cs [] ((if word \<noteq> [] then toks @ [word] else toks) @ [[c]]))"

definition tokenize :: "(codepoint \<Rightarrow> bool) \<Rightarrow> str \<Rightarrow> str list" where
  "tokenize ext sentence = token_loop ext sentence [] []"

text \<open>\<open>token.strip() and any(c.isalnum() for c in token)\<close>.\<close>

definition is_real_word :: "(codepoint \<Rightarrow> bool) \<Rightarrow> str \<Rightarrow> bool" where
  "is_real_word ext token = (strip token \<noteq> [] \<and> list_ex (isalnum_cp ext) token)"

text \<open>
  The \<open>for i, token in enumerate(tokens)\<close> loop: the first list is \<open>tokens[i:]\<close>, then
  \<open>current_chunk\<close>, \<open>word_count\<close> and \<open>chunks\<close>. \<open>tokens[i+1]\<close> is the head of the rest.
  The assignment \<open>i += 1\<close> in the second branch changes a variable that \<open>enumerate\<close>
  overwrites at the next iteration, so the iteration goes on with the next token all
  the same. The first equation is the flush of \<open>current_chunk\<close> after the loop.
\<close>

fun group_loop ::
  "(codepoint \<Rightarrow> bool) \<Rightarrow> str list \<Rightarrow> str list \<Rightarrow> nat \<Rightarrow> str list \<Rightarrow> str list" where
  "group_loop ext [] cur wc chunks =
     (if cur \<noteq> [] then
        (let final_chunk = concat cur
         in chunks @ [if \<not> endswith_space final_chunk then final_chunk @ [SP] else final_chunk])
      else chunks)"
| "group_loop ext (token # rest) cur wc chunks =
     (let cur' = cur @ [token];
          wc' = (if is_real_word ext token then wc + 1 else wc)
      in if wc' = MAX_WORDS_PER_CHUNK then
           (if isspace token then group_loop ext rest [] 0 (chunks @ [concat cur'])
            else if rest \<noteq> [] \<and> isspace (hd rest) then
              group_loop ext rest [] 0 (chunks @ [concat (cur' @ [hd rest])])
            else group_loop ext rest [] 0 (chunks @ [concat cur' @ [SP]]))
         else group_loop ext rest cur' wc' chunks)"

text \<open>One round of \<open>for sentence in sentences\<close>: tokenize, then group.\<close>

definition chunk_sentence :: "(codepoint \<Rightarrow> bool) \<Rightarrow> str list \<Rightarrow> str \<Rightarrow> str list" where
  "chunk_sentence ext chunks sentence = group_loop ext (tokenize ext sentence) [] 0 chunks"

text \<open>The final pass \<open>for i in range(len(chunks))\<close>.\<close>

definition cleanup :: "str list \<Rightarrow> str list" where
  "cleanup chunks = map (\<lambda>c. if \<not> endswith_space c then c @ [SP] else c) chunks"

definition chunk_text :: "(codepoint \<Rightarrow> bool) \<Rightarrow> str \<Rightarrow> str list" where
  "chunk_text ext text = cleanup (foldl (chunk_sentence ext) [] (split_sentences text))"

section \<open>The language table\<close>

text \<open>
  \<open>Language\<close> is an enumeration of the pipeline framework; a member is named here by
  its identifier (\<open>Language.EN_GB\<close> is \<open>''EN_GB''\<close>). Every member is a non-empty
  string, so a member is never false in a condition. The table is the dictionary literal
  of \<open>language_to_google_tts_language\<close>, entry for entry; no key occurs twice.
\<close>

type_synonym Language = string

definition language_map :: "(Language \<times> string) list" where
  "language_map =
     [
      (''AF'', ''af-ZA''), (''AF_ZA'', ''af-ZA''), (''AR'', ''ar-XA''), (''BN'', ''bn-IN''),
      (''BN_IN'', ''bn-IN''), (''BG'', ''bg-BG''), (''BG_BG'', ''bg-BG''), (''CA'', ''ca-ES''),
      (''CA_ES'', ''ca-ES''), (''ZH'', ''cmn-CN''), (''ZH_CN'', ''cmn-CN''), (''ZH_TW'', ''cmn-TW''),
      (''ZH_HK'', ''yue-HK''), (''CS'', ''cs-CZ''), (''CS_CZ'', ''cs-CZ''), (''DA'', ''da-DK''),
      (''DA_DK'', ''da-DK''), (''NL'', ''nl-NL''), (''NL_BE'', ''nl-BE''), (''NL_NL'', ''nl-NL''),
      (''EN'', ''en-US''), (''EN_US'', ''en-US''), (''EN_AU'', ''en-AU''), (''EN_GB'', ''en-GB''),
      (''EN_IN'', ''en-IN''), (''ET'', ''et-EE''), (''ET_EE'', ''et-EE''), (''FIL'', ''fil-PH''),
      (''FIL_PH'', ''fil-PH''), (''FI'', ''fi-FI''), (''FI_FI'', ''fi-FI''), (''FR'', ''fr-FR''),
      (''FR_CA'', ''fr-CA''), (''FR_FR'', ''fr-FR''), (''GL'', ''gl-ES''), (''GL_ES'', ''gl-ES''),
      (''DE'', ''de-DE''), (''DE_DE'', ''de-DE''), (''EL'', ''el-GR''), (''EL_GR'', ''el-GR''),
      (''GU'', ''gu-IN''), (''GU_IN'', ''gu-IN''), (''HE'', ''he-IL''), (''HE_IL'', ''he-IL''),
      (''HI'', ''hi-IN''), (''HI_IN'', ''hi-IN''), (''HU'', ''hu-HU''), (''HU_HU'', ''hu-HU''),
      (''IS'', ''is-IS''), (''IS_IS'', ''is-IS''), (''ID'', ''id-ID''), (''ID_ID'', ''id-ID''),
      (''IT'', ''it-IT''), (''IT_IT'', ''it-IT''), (''JA'', ''ja-JP''), (''JA_JP'', ''ja-JP''),
      (''KN'', ''kn-IN''), (''KN_IN'', ''kn-IN''), (''KO'', ''ko-KR''), (''KO_KR'', ''ko-KR''),
      (''LV'', ''lv-LV''), (''LV_LV'', ''lv-LV''), (''LT'', ''lt-LT''), (''LT_LT'', ''lt-LT''),
      (''MS'', ''ms-MY''), (''MS_MY'', ''ms-MY''), (''ML'', ''ml-IN''), (''ML_IN'', ''ml-IN''),
      (''MR'', ''mr-IN''), (''MR_IN'', ''mr-IN''), (''NO'', ''nb-NO''), (''NB'', ''nb-NO''),
      (''NB_NO'', ''nb-NO''), (''PL'', ''pl-PL''), (''PL_PL'', ''pl-PL''), (''PT'', ''pt-PT''),
      (''PT_BR'', ''pt-BR''), (''PT_PT'', ''pt-PT''), (''PA'', ''pa-IN''), (''PA_IN'', ''pa-IN''),
      (''RO'', ''ro-RO''), (''RO_RO'', ''ro-RO''), (''RU'', ''ru-RU''), (''RU_RU'', ''ru-RU''),
      (''SR'', ''sr-RS''), (''SR_RS'', ''sr-RS''), (''SK'', ''sk-SK''), (''SK_SK'', ''sk-SK''),
      (''ES'', ''es-ES''), (''ES_ES'', ''es-ES''), (''ES_US'', ''es-US''), (''SV'', ''sv-SE''),
      (''SV_SE'', ''sv-SE''), (''TA'', ''ta-IN''), (''TA_IN'', ''ta-IN''), (''TE'', ''te-IN''),
      (''TE_IN'', ''te-IN''), (''TH'', ''th-TH''), (''TH_TH'', ''th-TH''), (''TR'', ''tr-TR''),
      (''TR_TR'', ''tr-TR''), (''UK'', ''uk-UA''), (''UK_UA'', ''uk-UA''), (''VI'', ''vi-VN''),
      (''VI_VN'', ''vi-VN'')
     ]"

text \<open>\<open>language_map.get(language)\<close>: \<open>None\<close> for a key that is absent.\<close>

definition language_to_google_tts_language :: "Language \<Rightarrow> str option" where
  "language_to_google_tts_language language = map_option lit (map_of language_map language)"

section \<open>The service object\<close>

text \<open>
  \<open>InputParams\<close>, with the defaults of the class: every field \<open>None\<close> but the
  language, \<open>Language.EN\<close>, and the chunk size, 100.
\<close>

record InputParams =
  param_pitch :: "str option"
  param_rate :: "str option"
  param_volume :: "str option"
  param_emphasis :: "str option"
  param_language :: "Language option"
  param_gender :: "str option"
  param_google_style :: "str option"
  param_chunk_size :: int

definition InputParams_default :: InputParams where
  "InputParams_default =
     \<lparr>param_pitch = None, param_rate = None, param_volume = None, param_emphasis = None,
      param_language = Some ''EN'', param_gender = None, param_google_style = None,
      param_chunk_size = 100\<rparr>"

text \<open>The dictionary \<open>self._settings\<close>; its keys are fixed, so it is a record.\<close>

record settings =
  pitch :: "str option"
  rate :: "str option"
  volume :: "str option"
  emphasis :: "str option"
  language :: "str option"
  gender :: "str option"
  google_style :: "str option"
  chunk_size :: int

text \<open>
  The fields of the object that the synthesis path reads. \<open>sample_rate\<close> is a property
  of the framework's base class; the constructor's own \<open>sample_rate\<close> argument is not
  handed on to it.
\<close>

record GoogleTTSService =
  settings :: settings
  voice_id :: str
  sample_rate :: nat

text \<open>
  An exception is an instance of \<open>Exception\<close>, which \<open>except Exception\<close> catches, or of
  \<open>BaseException\<close> only (a cancellation, a keyboard interrupt), which it does not.
  The string is \<open>str(e)\<close>.
\<close>

datatype py_exc = Exception str | BaseException str

text \<open>
  \<open>__init__\<close>. The language setting is looked up when \<open>params.language\<close> is given and
  is \<open>"en-US"\<close> otherwise. Resolving the credentials is the work of the Google client
  library: \<open>creds\<close> says whether it produced a credentials object, and
  \<open>_create_client\<close> raises \<open>ValueError\<close> when it did not.
\<close>

definition init_settings :: "InputParams \<Rightarrow> settings" where
  "init_settings params =
     \<lparr>pitch = param_pitch params, rate = param_rate params, volume = param_volume params,
      emphasis = param_emphasis params,
      language = (case param_language params of
                    Some l \<Rightarrow> language_to_google_tts_language l
                  | None \<Rightarrow> Some (lit ''en-US'')),
      gender = param_gender params, google_style = param_google_style params,
      chunk_size = param_chunk_size params\<rparr>"

definition GoogleTTSService_init ::
  "bool \<Rightarrow> str \<Rightarrow> nat \<Rightarrow> InputParams \<Rightarrow> py_exc + GoogleTTSService" where
  "GoogleTTSService_init creds voice base_rate params =
     (if \<not> creds then Inl (Exception (lit ''No valid credentials provided.''))
      else Inr \<lparr>settings = init_settings params, voice_id = voice, sample_rate = base_rate\<rparr>)"

section \<open>The SSML builder\<close>

text \<open>The truth value of an optional string: \<open>None\<close> and \<open>""\<close> are false.\<close>

definition truthy :: "str option \<Rightarrow> bool" where
  "truthy v = (case v of None \<Rightarrow> False | Some s \<Rightarrow> s \<noteq> [])"

text \<open>An optional string inside an f-string: \<open>None\<close> is printed as \<open>None\<close>.\<close>

definition fmt :: "str option \<Rightarrow> str" where
  "fmt v = (case v of None \<Rightarrow> lit ''None'' | Some s \<Rightarrow> s)"

text \<open>\<open>sep.join(xs)\<close>.\<close>

fun join :: "str \<Rightarrow> str list \<Rightarrow> str" where
  "join sep [] = []"
| "join sep [x] = x"
| "join sep (x # y # ys) = x @ sep @ join sep (y # ys)"

text \<open>\<open>f"key='{v}'"\<close>.\<close>

definition attr :: "string \<Rightarrow> str \<Rightarrow> str" where
  "attr key v = lit key @ [61, APOS] @ v @ [APOS]"

definition voice_attrs :: "GoogleTTSService \<Rightarrow> str list" where
  "voice_attrs svc =
     [attr ''name'' (voice_id svc)] @ [attr ''language'' (fmt (language (settings svc)))]
     @ (if truthy (gender (settings svc)) then [attr ''gender'' (fmt (gender (settings svc)))]
        else [])"

definition prosody_attrs :: "GoogleTTSService \<Rightarrow> str list" where
  "prosody_attrs svc =
     (if truthy (pitch (settings svc)) then [attr ''pitch'' (fmt (pitch (settings svc)))] else [])
     @ (if truthy (rate (settings svc)) then [attr ''rate'' (fmt (rate (settings svc)))] else [])
     @ (if truthy (volume (settings svc)) then [attr ''volume'' (fmt (volume (settings svc)))]
        else [])"

definition construct_ssml :: "GoogleTTSService \<Rightarrow> str \<Rightarrow> str" where
  "construct_ssml svc text =
     lit ''<speak>''
     @ lit ''<voice '' @ join [SP] (voice_attrs svc) @ lit ''>''
     @ (if prosody_attrs svc \<noteq> [] then lit ''<prosody '' @ join [SP] (prosody_attrs svc) @ lit ''>''
        else [])
     @ (if truthy (emphasis (settings svc))
        then lit ''<emphasis '' @ attr ''level'' (fmt (emphasis (settings svc))) @ lit ''>''
        else [])
     @ (if truthy (google_style (settings svc))
        then lit ''<google:style '' @ attr ''name'' (fmt (google_style (settings svc))) @ lit ''>''
        else [])
     @ text
     @ (if truthy (google_style (settings svc)) then lit ''</google:style>'' else [])
     @ (if truthy (emphasis (settings svc)) then lit ''</emphasis>'' else [])
     @ (if prosody_attrs svc \<noteq> [] then lit ''</prosody>'' else [])
     @ lit ''</voice></speak>''"

section \<open>The streaming request generator\<close>

text \<open>
  \<open>str.lower\<close> maps \<open>A\<close> to \<open>Z\<close> onto \<open>a\<close> to \<open>z\<close> and leaves the rest of ASCII alone.
  Beyond ASCII a code point is replaced by the code points the Unicode case mapping
  gives for it, which is the parameter \<open>lo\<close>.
\<close>

definition lower_cp :: "(codepoint \<Rightarrow> codepoint list) \<Rightarrow> codepoint \<Rightarrow> codepoint list" where
  "lower_cp lo c = (if c < 128 then [if 65 \<le> c \<and> c \<le> 90 then c + 32 else c] else lo c)"

definition lower :: "(codepoint \<Rightarrow> codepoint list) \<Rightarrow> str \<Rightarrow> str" where
  "lower lo s = concat (map (lower_cp lo) s)"

text \<open>The case mapping that leaves every code point beyond ASCII as it is.\<close>

definition no_case :: "codepoint \<Rightarrow> codepoint list" where
  "no_case c = [c]"

text \<open>\<open>p in s\<close> on strings: \<open>p\<close> occurs in \<open>s\<close> as a contiguous piece.\<close>

fun is_in :: "str \<Rightarrow> str \<Rightarrow> bool" where
  "is_in p [] = (p = [])"
| "is_in p (x # xs) = (prefix p (x # xs) \<or> is_in p xs)"

text \<open>The two tables of the interpreter that the code reads beyond ASCII.\<close>

record unicode_tables =
  u_alnum :: "codepoint \<Rightarrow> bool"
  u_lower :: "codepoint \<Rightarrow> codepoint list"

definition ascii_tables :: unicode_tables where
  "ascii_tables = \<lparr>u_alnum = ascii_only, u_lower = no_case\<rparr>"

text \<open>
  A request of the stream: the configuration (language code and voice name), or an
  input. The input message of the client library has the fields \<open>text\<close> and \<open>markup\<close>,
  so an input carries markup or plain text; the message has no field \<open>ssml\<close>.
\<close>

datatype StreamingSynthesizeRequest =
  ConfigRequest "str option" str
| MarkupInput str
| TextInput str

text \<open>
  \<open>StreamingSynthesizeRequest(input=StreamingSynthesisInput(field=value))\<close>. The message
  classes belong to the client library, which is no part of this repository. Their
  constructor takes the fields as keywords, and a keyword that names no field of the
  message makes it raise \<open>ValueError\<close>.
\<close>

definition StreamingSynthesisInput :: "string \<Rightarrow> str \<Rightarrow> py_exc + StreamingSynthesizeRequest" where
  "StreamingSynthesisInput field v =
     (if field = ''text'' then Inr (TextInput v)
      else if field = ''markup'' then Inr (MarkupInput v)
      else Inl (Exception (lit ''Unknown field for StreamingSynthesisInput: '' @ lit field)))"

definition is_chirp_voice :: "unicode_tables \<Rightarrow> GoogleTTSService \<Rightarrow> bool" where
  "is_chirp_voice U svc = is_in (lit ''chirp'') (lower (u_lower U) (voice_id svc))"

definition is_journey_voice :: "unicode_tables \<Rightarrow> GoogleTTSService \<Rightarrow> bool" where
  "is_journey_voice U svc = is_in (lit ''journey'') (lower (u_lower U) (voice_id svc))"

definition use_ssml :: "unicode_tables \<Rightarrow> GoogleTTSService \<Rightarrow> bool" where
  "use_ssml U svc = (\<not> (is_chirp_voice U svc \<or> is_journey_voice U svc))"

text \<open>
  The loop \<open>for chunk in text_chunks\<close> of the inner generator: the requests that it
  yields, in order, and the exception with which it ends, if any. The SSML branch
  builds the markup with \<open>_construct_ssml\<close> and then hands it to the input message under
  the keyword \<open>ssml\<close>; the other branch hands the chunk over under the keyword \<open>text\<close>.
\<close>

fun request_loop ::
  "bool \<Rightarrow> GoogleTTSService \<Rightarrow> str list \<Rightarrow> StreamingSynthesizeRequest list \<times> py_exc option" where
  "request_loop ssml svc [] = ([], None)"
| "request_loop ssml svc (chunk # chunks) =
     (case (if ssml then StreamingSynthesisInput ''ssml'' (construct_ssml svc chunk)
            else StreamingSynthesisInput ''text'' chunk) of
        Inl e \<Rightarrow> ([], Some e)
      | Inr request \<Rightarrow>
          (case request_loop ssml svc chunks of
             (requests, raised) \<Rightarrow> (request # requests, raised)))"

text \<open>
  The generator that \<open>_create_streaming_request_generator\<close> returns: the configuration
  request, then what the loop yields, and the exception with which it ends, if any.
  The chunks are computed when the generator is created, before anything is sent.
\<close>

definition create_streaming_request_generator ::
  "unicode_tables \<Rightarrow> GoogleTTSService \<Rightarrow> str
   \<Rightarrow> StreamingSynthesizeRequest list \<times> py_exc option" where
  "create_streaming_request_generator U svc text =
     (case request_loop (use_ssml U svc) svc (chunk_text (u_alnum U) text) of
        (requests, raised) \<Rightarrow>
          (ConfigRequest (language (settings svc)) (voice_id svc) # requests, raised))"

section \<open>The synthesis driver\<close>

type_synonym byte = "8 word"

datatype Frame =
  TTSStartedFrame
| TTSAudioRawFrame "byte list" nat nat
| TTSStoppedFrame
| ErrorFrame str

text \<open>
  What a call does that its caller or the framework sees, in order: the calls to the
  metrics methods and the frames it yields.
\<close>

datatype event =
  CallStartTTFB
| CallStartUsage str
| CallStopTTFB
| Yield Frame

text \<open>
  The collaborators of a call. Each metrics method returns (\<open>None\<close>) or raises. The
  remote call is handed the request generator; it raises at once, or returns a response
  iterator: the audio contents of the responses it delivers, and the exception it
  raises after them, if any.
\<close>

record env =
  start_ttfb_metrics :: "py_exc option"
  start_tts_usage_metrics :: "str \<Rightarrow> py_exc option"
  streaming_synthesize ::
    "StreamingSynthesizeRequest list \<times> py_exc option
     \<Rightarrow> py_exc + (byte list list \<times> py_exc option)"
  stop_ttfb_metrics :: "py_exc option"

definition CHUNK_SIZE :: nat where
  "CHUNK_SIZE = 1024"

text \<open>\<open>range(0, n, k)\<close> for a positive step.\<close>

definition range_step :: "nat \<Rightarrow> nat \<Rightarrow> nat list" where
  "range_step n k = map (\<lambda>j. j * k) [0 ..< (n + k - 1) div k]"

text \<open>
  The inner loop over one response: a frame for each slice
  \<open>audio_content[i : i + CHUNK_SIZE]\<close>, stopping at an empty slice.
\<close>

definition audio_frames :: "GoogleTTSService \<Rightarrow> byte list \<Rightarrow> Frame list" where
  "audio_frames svc audio_content =
     map (\<lambda>chunk. TTSAudioRawFrame chunk (sample_rate svc) 1)
       (takeWhile (\<lambda>chunk. chunk \<noteq> [])
          (map (\<lambda>i. take CHUNK_SIZE (drop i audio_content))
               (range_step (length audio_content) CHUNK_SIZE)))"

text \<open>
  \<open>for response in streaming_responses\<close>: the responses still to come, \<open>ttfb_sent\<close>, and
  the events so far. The result is the events and the exception raised, if any.
\<close>

fun response_loop ::
  "env \<Rightarrow> GoogleTTSService \<Rightarrow> byte list list \<Rightarrow> bool \<Rightarrow> event list
   \<Rightarrow> event list \<times> py_exc option" where
  "response_loop E svc [] ttfb_sent tr = (tr, None)"
| "response_loop E svc (r # rs) ttfb_sent tr =
     (if \<not> ttfb_sent then
        (case stop_ttfb_metrics E of
           Some e \<Rightarrow> (tr @ [CallStopTTFB], Some e)
         | None \<Rightarrow>
             response_loop E svc rs True (tr @ [CallStopTTFB] @ map Yield (audio_frames svc r)))
      else response_loop E svc rs ttfb_sent (tr @ map Yield (audio_frames svc r)))"

text \<open>The body of the \<open>try\<close>: the events, and the exception that leaves it, if any.\<close>

definition run_tts_try ::
  "unicode_tables \<Rightarrow> env \<Rightarrow> GoogleTTSService \<Rightarrow> str \<Rightarrow> event list \<times> py_exc option" where
  "run_tts_try U E svc text =
     (case start_ttfb_metrics E of
        Some e \<Rightarrow> ([CallStartTTFB], Some e)
      | None \<Rightarrow>
     (case start_tts_usage_metrics E text of
        Some e \<Rightarrow> ([CallStartTTFB, CallStartUsage text], Some e)
      | None \<Rightarrow>
     (let tr = [CallStartTTFB, CallStartUsage text, Yield TTSStartedFrame];
          request_generator = create_streaming_request_generator U svc text
      in case streaming_synthesize E request_generator of
           Inl e \<Rightarrow> (tr, Some e)
         | Inr (responses, raised) \<Rightarrow>
             (case response_loop E svc responses False tr of
                (tr', Some e) \<Rightarrow> (tr', Some e)
              | (tr', None) \<Rightarrow>
                  (case raised of
                     Some e \<Rightarrow> (tr', Some e)
                   | None \<Rightarrow> (tr' @ [Yield TTSStoppedFrame], None))))))"

text \<open>
  \<open>run_tts\<close>: the \<open>try\<close> with its handler. An \<open>Exception\<close> becomes an error frame and the
  generator ends; anything else leaves the call.
\<close>

definition run_tts ::
  "unicode_tables \<Rightarrow> env \<Rightarrow> GoogleTTSService \<Rightarrow> str \<Rightarrow> event list \<times> py_exc option" where
  "run_tts U E svc text =
     (case run_tts_try U E svc text of
        (tr, None) \<Rightarrow> (tr, None)
      | (tr, Some (Exception m)) \<Rightarrow>
          (tr @ [Yield (ErrorFrame (lit ''Streaming TTS generation error: '' @ m))], None)
      | (tr, Some (BaseException m)) \<Rightarrow> (tr, Some (BaseException m)))"

text \<open>The frames among the events.\<close>

fun frames :: "event list \<Rightarrow> Frame list" where
  "frames [] = []"
| "frames (Yield f # es) = f # frames es"
| "frames (e # es) = frames es"

section \<open>Notions of the statements\<close>

text \<open>
  A word of a string is a maximal run of characters that are alphanumeric or
  apostrophes. The tokenizer cuts a string into its words and, one by one, the
  characters between them, so the words of a string are the word tokens of its
  tokenization; the real words are those that the grouping loop counts.
\<close>

definition is_word :: "(codepoint \<Rightarrow> bool) \<Rightarrow> str \<Rightarrow> bool" where
  "is_word ext t = (t \<noteq> [] \<and> list_all (is_wordchar ext) t)"

definition is_sep :: "(codepoint \<Rightarrow> bool) \<Rightarrow> str \<Rightarrow> bool" where
  "is_sep ext t = (case t of [c] \<Rightarrow> \<not> is_wordchar ext c | _ \<Rightarrow> False)"

definition words :: "(codepoint \<Rightarrow> bool) \<Rightarrow> str \<Rightarrow> str list" where
  "words ext s = filter (is_word ext) (tokenize ext s)"

definition real_words :: "(codepoint \<Rightarrow> bool) \<Rightarrow> str \<Rightarrow> str list" where
  "real_words ext s = filter (is_real_word ext) (tokenize ext s)"

text \<open>
  A token list as the tokenizer makes them: words and single separators, and never
  two words in a row.
\<close>

fun wf_tokens :: "(codepoint \<Rightarrow> bool) \<Rightarrow> str list \<Rightarrow> bool" where
  "wf_tokens ext [] = True"
| "wf_tokens ext [t] = (is_word ext t \<or> is_sep ext t)"
| "wf_tokens ext (t # u # ts) =
     ((is_word ext t \<or> is_sep ext t) \<and> \<not> (is_word ext t \<and> is_word ext u)
      \<and> wf_tokens ext (u # ts))"

text \<open>A chunk with one trailing space taken away, if it has one.\<close>

definition strip_one :: "str \<Rightarrow> str" where
  "strip_one c = (if endswith_space c then butlast c else c)"

text \<open>
  The tokens that come directly after a token that closes a chunk. The loop closes a
  chunk at the token that brings \<open>word_count\<close> to \<open>MAX_WORDS_PER_CHUNK\<close> and starts to
  count again; \<open>after_closing\<close> follows that count along a token list and collects
  \<open>tokens[i+1]\<close> at each such token. \<open>after_closing_words\<close> does so for every sentence of
  a text.
\<close>

fun after_closing :: "(codepoint \<Rightarrow> bool) \<Rightarrow> str list \<Rightarrow> nat \<Rightarrow> str list" where
  "after_closing ext [] wc = []"
| "after_closing ext (token # rest) wc =
     (let wc' = (if is_real_word ext token then wc + 1 else wc)
      in if wc' = MAX_WORDS_PER_CHUNK then
           (if rest \<noteq> [] then [hd rest] else []) @ after_closing ext rest 0
         else after_closing ext rest wc')"

definition after_closing_words :: "(codepoint \<Rightarrow> bool) \<Rightarrow> str \<Rightarrow> str list" where
  "after_closing_words ext text =
     concat (map (\<lambda>sentence. after_closing ext (tokenize ext sentence) 0)
                 (split_sentences text))"

text \<open>
  \<open>anycase p q\<close>: \<open>q\<close> is the word \<open>p\<close> of lower-case ASCII letters, each letter in
  either case.
\<close>

definition anycase :: "str \<Rightarrow> str \<Rightarrow> bool" where
  "anycase p q = list_all2 (\<lambda>a b. 97 \<le> a \<and> a \<le> 122 \<and> (b = a \<or> b + 32 = a)) p q"

text \<open>What a frame is.\<close>

fun is_audio :: "Frame \<Rightarrow> bool" where
  "is_audio (TTSAudioRawFrame a r c) = True"
| "is_audio f = False"

section \<open>Sample objects\<close>

text \<open>
  Services built with the default parameters, for the default voice, whose name holds
  neither \<open>chirp\<close> nor \<open>journey\<close>, for a Chirp voice and for a Journey voice, and one
  built for a language that the table does not hold.
\<close>

definition sample_svc :: GoogleTTSService where
  "sample_svc = \<lparr>settings = init_settings InputParams_default,
                  voice_id = lit ''en-US-Neural2-A'', sample_rate = 24000\<rparr>"

definition chirp_svc :: GoogleTTSService where
  "chirp_svc = \<lparr>settings = init_settings InputParams_default,
                 voice_id = lit ''en-US-Chirp-HD-F'', sample_rate = 24000\<rparr>"

definition journey_svc :: GoogleTTSService where
  "journey_svc = \<lparr>settings = init_settings InputParams_default,
                   voice_id = lit ''en-US-Journey-F'', sample_rate = 24000\<rparr>"

definition unmapped_params :: InputParams where
  "unmapped_params = InputParams_default\<lparr>param_language := Some ''ES_MX''\<rparr>"

definition unmapped_svc :: GoogleTTSService where
  "unmapped_svc = \<lparr>settings = init_settings unmapped_params,
                    voice_id = lit ''en-US-Neural2-A'', sample_rate = 24000\<rparr>"

text \<open>
  Collaborators: a remote call that raises, a metrics timer that raises, a remote call
  that answers with one response of three bytes, and one that answers with none.
\<close>

definition failing_remote :: env where
  "failing_remote =
     \<lparr>start_ttfb_metrics = None, start_tts_usage_metrics = (\<lambda>text. None),
      streaming_synthesize = (\<lambda>requests. Inl (Exception (lit ''unavailable''))),
      stop_ttfb_metrics = None\<rparr>"

definition failing_metrics :: env where
  "failing_metrics =
     \<lparr>start_ttfb_metrics = Some (Exception (lit ''no metrics'')),
      start_tts_usage_metrics = (\<lambda>text. None),
      streaming_synthesize = (\<lambda>requests. Inr ([], None)),
      stop_ttfb_metrics = None\<rparr>"

definition one_response :: env where
  "one_response =
     \<lparr>start_ttfb_metrics = None, start_tts_usage_metrics = (\<lambda>text. None),
      streaming_synthesize = (\<lambda>requests. Inr ([[1, 2, 3]], None)),
      stop_ttfb_metrics = None\<rparr>"

definition no_response :: env where
  "no_response =
     \<lparr>start_ttfb_metrics = None, start_tts_usage_metrics = (\<lambda>text. None),
      streaming_synthesize = (\<lambda>requests. Inr ([], None)),
      stop_ttfb_metrics = None\<rparr>"

section \<open>Evaluation\<close>

lemmas char_eval = lit_def isspace_cp_def isalnum_cp_def ascii_only_def isspace_def strip_def
  endswith_space_def is_wordchar_def is_real_word_def

lemmas chunk_eval = char_eval MAX_WORDS_PER_CHUNK_def sentence_boundaries_def closers_def
  split_sentences_def tokenize_def chunk_sentence_def cleanup_def chunk_text_def Let_def

section \<open>The loops and their accumulators\<close>

lemma split_loop_concat:
  "concat (split_loop s cur sents) = concat sents @ cur @ s"
  by (induction s cur sents rule: split_loop.induct) (simp_all split: list.splits)

lemma split_loop_nonempty:
  "\<forall>s \<in> set sents. s \<noteq> [] \<Longrightarrow> \<forall>s \<in> set (split_loop t cur sents). s \<noteq> []"
  by (induction t cur sents rule: split_loop.induct) (simp_all split: list.splits)

lemma split_loop_Nil_iff:
  "split_loop t cur sents = [] \<longleftrightarrow> t = [] \<and> cur = [] \<and> sents = []"
proof (induction t cur sents rule: split_loop.induct)
  case (1 cur sents)
  show ?case by simp
next
  case (2 c rest cur sents)
  show ?case
    apply (cases rest)
    using 2 apply simp_all
    done
qed

lemma token_loop_Nil_iff:
  "token_loop ext s word toks = [] \<longleftrightarrow> s = [] \<and> word = [] \<and> toks = []"
  by (induction s arbitrary: word toks) simp_all

lemma group_loop_acc:
  "group_loop ext toks cur wc chunks = chunks @ group_loop ext toks cur wc []"
proof (induction toks arbitrary: cur wc chunks)
  case Nil
  show ?case by (simp add: Let_def)
next
  case (Cons t rest)
  have a: "\<And>c cur wc. group_loop ext rest cur wc (chunks @ [c])
                      = chunks @ group_loop ext rest cur wc [c]"
  proof -
    fix c cur wc
    have "group_loop ext rest cur wc (chunks @ [c])
            = (chunks @ [c]) @ group_loop ext rest cur wc []"
      by (rule Cons.IH)
    also have "\<dots> = chunks @ ([c] @ group_loop ext rest cur wc [])" by simp
    also have "[c] @ group_loop ext rest cur wc [] = group_loop ext rest cur wc [c]"
      by (rule Cons.IH [symmetric])
    finally show "group_loop ext rest cur wc (chunks @ [c])
                    = chunks @ group_loop ext rest cur wc [c]" .
  qed
  have b: "\<And>cur wc. group_loop ext rest cur wc chunks = chunks @ group_loop ext rest cur wc []"
    by (rule Cons.IH)
  show ?case
    by (simp add: Let_def a b [symmetric] del: append_assoc)
qed

lemma group_loop_Nil_iff:
  "group_loop ext toks cur wc chunks = [] \<longleftrightarrow> toks = [] \<and> cur = [] \<and> chunks = []"
  by (induction toks arbitrary: cur wc chunks) (simp_all add: Let_def)

text \<open>A token of whitespace is no real word: \<open>strip\<close> leaves nothing of it.\<close>

lemma isspace_not_real_word: "isspace t \<Longrightarrow> \<not> is_real_word ext t"
proof -
  assume "isspace t"
  then have "\<forall>c \<in> set t. isspace_cp c" by (simp add: isspace_def list_all_iff)
  then have "strip t = []" by (auto simp: strip_def dest: set_dropWhileD)
  then show ?thesis by (simp add: is_real_word_def)
qed

text \<open>
  What is in \<open>current_chunk\<close> opens the next chunk that the loop emits, whatever
  follows.
\<close>

lemma group_loop_cur_prefix:
  "cur \<noteq> [] \<Longrightarrow> \<exists>c cs. group_loop ext toks cur wc chunks = chunks @ (concat cur @ c) # cs"
proof (induction toks arbitrary: cur wc chunks)
  case Nil
  then show ?case by (simp add: Let_def)
next
  case (Cons t rest)
  let ?cur = "cur @ [t]"
  let ?wc = "if is_real_word ext t then wc + 1 else wc"
  show ?case
  proof (cases "?wc = MAX_WORDS_PER_CHUNK")
    case False
    have "?cur \<noteq> []" by simp
    from Cons.IH [OF this, of ?wc chunks] obtain c cs where
      "group_loop ext rest ?cur ?wc chunks = chunks @ (concat ?cur @ c) # cs" by blast
    then have "group_loop ext (t # rest) cur wc chunks = chunks @ (concat cur @ (t @ c)) # cs"
      using False by (simp add: Let_def)
    then show ?thesis by blast
  next
    case True
    note full = this
    obtain x where x: "group_loop ext (t # rest) cur wc chunks
            = group_loop ext rest [] 0 (chunks @ [concat cur @ x])"
    proof (cases "isspace t")
      case True
      with full have "group_loop ext (t # rest) cur wc chunks
            = group_loop ext rest [] 0 (chunks @ [concat cur @ t])" by (simp add: Let_def)
      then show ?thesis using that by blast
    next
      case False
      note nsp = this
      show ?thesis
      proof (cases "rest \<noteq> [] \<and> isspace (hd rest)")
        case True
        with nsp full have "group_loop ext (t # rest) cur wc chunks
            = group_loop ext rest [] 0 (chunks @ [concat cur @ (t @ hd rest)])"
          by (simp add: Let_def)
        then show ?thesis using that by blast
      next
        case False
        with nsp full have "group_loop ext (t # rest) cur wc chunks
            = group_loop ext rest [] 0 (chunks @ [concat cur @ (t @ [SP])])"
          by (auto simp: Let_def)
        then show ?thesis using that by blast
      qed
    qed
    have "group_loop ext rest [] 0 (chunks @ [concat cur @ x])
            = (chunks @ [concat cur @ x]) @ group_loop ext rest [] 0 []"
      by (rule group_loop_acc)
    with x have "group_loop ext (t # rest) cur wc chunks
            = chunks @ (concat cur @ x) # group_loop ext rest [] 0 []" by simp
    then show ?thesis by blast
  qed
qed

section \<open>The space after the last word of a full chunk\<close>

text \<open>
  C2. When the token \<open>t\<close> is the real word that brings \<open>word_count\<close> to
  \<open>MAX_WORDS_PER_CHUNK\<close> and the token \<open>s\<close> after it is whitespace, the loop closes the
  chunk with \<open>s\<close> appended to it, and then goes on from \<open>s\<close> itself with an empty
  \<open>current_chunk\<close>, not from the token after \<open>s\<close>: the increment of \<open>i\<close> skips nothing.
  So the chunk emitted next begins with \<open>s\<close> again, and the chunks read one after the
  other hold \<open>s\<close> twice where the input holds it once.
\<close>

theorem group_loop_repeats_space:
  assumes "is_real_word ext t" and "wc + 1 = MAX_WORDS_PER_CHUNK" and "isspace s"
  shows "group_loop ext (t # s # rest) cur wc chunks
           = chunks @ [concat cur @ t @ s] @ group_loop ext (s # rest) [] 0 []
         \<and> (\<exists>c cs. group_loop ext (s # rest) [] 0 [] = (s @ c) # cs)"
proof -
  have nt: "\<not> isspace t" using assms(1) isspace_not_real_word by blast
  have ns: "\<not> is_real_word ext s" using assms(3) by (rule isspace_not_real_word)
  have "group_loop ext (t # s # rest) cur wc chunks
          = group_loop ext (s # rest) [] 0 (chunks @ [concat cur @ t @ s])"
    using assms nt by (simp add: Let_def)
  also have "\<dots> = (chunks @ [concat cur @ t @ s]) @ group_loop ext (s # rest) [] 0 []"
    by (rule group_loop_acc)
  finally have 1: "group_loop ext (t # s # rest) cur wc chunks
           = chunks @ [concat cur @ t @ s] @ group_loop ext (s # rest) [] 0 []" by simp
  have "group_loop ext (s # rest) [] 0 [] = group_loop ext rest [s] 0 []"
    using ns by (simp add: Let_def MAX_WORDS_PER_CHUNK_def)
  moreover obtain c cs where "group_loop ext rest [s] 0 [] = [] @ (concat [s] @ c) # cs"
    using group_loop_cur_prefix [of "[s]" ext rest 0 "[]"] by blast
  ultimately have "group_loop ext (s # rest) [] 0 [] = (s @ c) # cs" by simp
  with 1 show ?thesis by blast
qed

theorem group_loop_repeats_space_witness:
  "is_real_word ascii_only [99] \<and> (2::nat) + 1 = MAX_WORDS_PER_CHUNK \<and> isspace [SP]
   \<and> group_loop ascii_only ([99] # [SP] # [[100]]) [[97], [SP], [98], [SP]] 2 []
       = [] @ [concat [[97], [SP], [98], [SP]] @ [99] @ [SP]]
         @ group_loop ascii_only ([SP] # [[100]]) [] 0 []
   \<and> (\<exists>c cs. group_loop ascii_only ([SP] # [[100]]) [] 0 [] = ([SP] @ c) # cs)"
proof -
  have h1: "is_real_word ascii_only [99]" by (simp add: char_eval)
  have h2: "(2::nat) + 1 = MAX_WORDS_PER_CHUNK" by (simp add: MAX_WORDS_PER_CHUNK_def)
  have h3: "isspace [SP]" by (simp add: char_eval)
  show ?thesis
    using h1 h2 h3
      group_loop_repeats_space [OF h1 h2 h3, of "[[100]]" "[[97], [SP], [98], [SP]]" "[]"]
    by blast
qed

text \<open>
  On the whole function: in \<open>a b c d\<close> the space after \<open>c\<close> ends the first chunk and
  opens the second.
\<close>

lemma chunk_text_a_b_c_d:
  "chunk_text ascii_only (lit ''a b c d'') = [lit ''a b c '', lit '' d '']"
  by (simp add: chunk_eval)

section \<open>Empty and blank input\<close>

lemma foldl_chunk_sentence_Nil_iff:
  "\<forall>s \<in> set sents. s \<noteq> [] \<Longrightarrow>
   foldl (chunk_sentence ext) acc sents = [] \<longleftrightarrow> acc = [] \<and> sents = []"
proof (induction sents arbitrary: acc)
  case Nil
  show ?case by simp
next
  case (Cons s sents)
  have "chunk_sentence ext acc s \<noteq> []"
    using Cons.prems
    by (simp add: chunk_sentence_def group_loop_Nil_iff tokenize_def token_loop_Nil_iff)
  with Cons show ?case by simp
qed

lemma chunk_text_Nil_iff: "chunk_text ext t = [] \<longleftrightarrow> t = []"
proof -
  have "\<forall>s \<in> set (split_sentences t). s \<noteq> []"
    unfolding split_sentences_def by (rule split_loop_nonempty) simp
  then have "chunk_text ext t = [] \<longleftrightarrow> split_sentences t = []"
    by (simp add: chunk_text_def cleanup_def foldl_chunk_sentence_Nil_iff)
  then show ?thesis
    by (simp add: split_sentences_def split_loop_Nil_iff)
qed




section \<open>Sentence boundaries\<close>

text \<open>
  C4. The Devanagari full stop, code point 2404, does not end a sentence: a text of a
  letter, the full stop, a space and a letter is one sentence. The ASCII vertical bar,
  code point 124, does: \<open>a|b\<close> is two sentences.
\<close>

theorem devanagari_full_stop_is_no_boundary:
  "split_sentences [2325, 2404, SP, 2326] = [[2325, 2404, SP, 2326]]
   \<and> split_sentences [97, 124, 98] = [[97, 124], [98]]"
  by (simp add: chunk_eval)

text \<open>
  The rest of the splitting is as described: a full stop takes a closing bracket with
  it, a newline ends its sentence and takes nothing with it.
\<close>

lemma split_sentences_closer:
  "split_sentences (lit ''(a.) b'') = [lit ''(a.)'', lit '' b'']"
  by (simp add: chunk_eval)

lemma split_sentences_newline:
  "split_sentences [97, NL, 41, 98] = [[97, NL], [41, 98]]"
  by (simp add: chunk_eval)

section \<open>Plain text or SSML\<close>

lemma lower_append: "lower lo (xs @ ys) = lower lo xs @ lower lo ys"
  by (simp add: lower_def)

lemma anycase_lower: "anycase p q \<Longrightarrow> lower lo q = p"
  unfolding anycase_def
  by (induction p q rule: list_all2_induct) (auto simp: lower_def lower_cp_def)

lemma is_in_append: "is_in p (pre @ p @ post)"
proof (induction pre)
  case Nil
  show ?case
  proof (cases "p @ post")
    case Nil
    then show ?thesis by simp
  next
    case (Cons a list)
    then have "prefix p (a # list)" by (metis prefixI)
    with Cons show ?thesis by simp
  qed
next
  case (Cons a pre)
  then show ?case by simp
qed

lemma anycase_is_in:
  assumes "v = pre @ mid @ post" and "anycase p mid"
  shows "is_in p (lower lo v)"
proof -
  have "lower lo v = lower lo pre @ p @ lower lo post"
    using assms by (simp add: lower_append anycase_lower)
  then show ?thesis by (simp add: is_in_append)
qed

lemma request_loop_text: "request_loop False svc chunks = (map TextInput chunks, None)"
  by (induction chunks) (simp_all add: StreamingSynthesisInput_def)

lemma request_loop_ssml:
  "chunks \<noteq> [] \<Longrightarrow>
   request_loop True svc chunks
     = ([], Some (Exception (lit ''Unknown field for StreamingSynthesisInput: ssml'')))"
  by (cases chunks) (simp_all add: StreamingSynthesisInput_def lit_def)

text \<open>
  A voice identifier that holds \<open>chirp\<close>, each letter in either case, gets the
  configuration request and then one plain-text input per chunk.
\<close>

lemma chirp_plain_text:
  assumes "voice_id svc = pre @ mid @ post" and "anycase (lit ''chirp'') mid"
  shows "create_streaming_request_generator U svc text
           = (ConfigRequest (language (settings svc)) (voice_id svc)
              # map TextInput (chunk_text (u_alnum U) text), None)"
  using anycase_is_in [OF assms, of "u_lower U"]
  by (simp add: create_streaming_request_generator_def use_ssml_def is_chirp_voice_def
      request_loop_text)

text \<open>
  For a voice identifier whose lower-case form holds neither \<open>chirp\<close> nor \<open>journey\<close>,
  and a text that is not empty, the generator yields the configuration request and
  then raises: the input message has no field \<open>ssml\<close>.
\<close>

lemma ssml_branch_raises:
  assumes "\<not> is_in (lit ''chirp'') (lower (u_lower U) (voice_id svc))"
    and "\<not> is_in (lit ''journey'') (lower (u_lower U) (voice_id svc))"
    and "text \<noteq> []"
  shows "create_streaming_request_generator U svc text
           = ([ConfigRequest (language (settings svc)) (voice_id svc)],
              Some (Exception (lit ''Unknown field for StreamingSynthesisInput: ssml'')))"
proof -
  have "chunk_text (u_alnum U) text \<noteq> []" using assms(3) by (simp add: chunk_text_Nil_iff)
  then show ?thesis
    using assms(1,2)
    by (simp add: create_streaming_request_generator_def use_ssml_def is_chirp_voice_def
        is_journey_voice_def request_loop_ssml)
qed

text \<open>
  C6. For the voice \<open>en-US-Neural2-A\<close>, which holds neither marker, and the text \<open>Hi\<close>
  the generator yields the configuration request and then raises \<open>ValueError\<close>; it
  yields no input that carries markup. For the voice \<open>en-US-Chirp-HD-F\<close> it yields the
  configuration request and one plain-text input, and ends.
\<close>

theorem ssml_input_is_never_sent:
  "create_streaming_request_generator ascii_tables sample_svc (lit ''Hi'')
     = ([ConfigRequest (language (settings sample_svc)) (voice_id sample_svc)],
        Some (Exception (lit ''Unknown field for StreamingSynthesisInput: ssml'')))
   \<and> create_streaming_request_generator ascii_tables chirp_svc (lit ''Hi'')
     = ([ConfigRequest (language (settings chirp_svc)) (voice_id chirp_svc),
         TextInput (lit ''Hi '')], None)"
proof -
  have 1: "\<not> is_in (lit ''chirp'') (lower (u_lower ascii_tables) (voice_id sample_svc))"
    by (simp add: sample_svc_def lit_def lower_def lower_cp_def ascii_tables_def no_case_def)
  have 2: "\<not> is_in (lit ''journey'') (lower (u_lower ascii_tables) (voice_id sample_svc))"
    by (simp add: sample_svc_def lit_def lower_def lower_cp_def ascii_tables_def no_case_def)
  have 3: "lit ''Hi'' \<noteq> []" by (simp add: lit_def)
  have 4: "voice_id chirp_svc = lit ''en-US-'' @ lit ''Chirp'' @ lit ''-HD-F''"
    by (simp add: chirp_svc_def lit_def)
  have 5: "anycase (lit ''chirp'') (lit ''Chirp'')" by (simp add: lit_def anycase_def)
  have 6: "chunk_text (u_alnum ascii_tables) (lit ''Hi'') = [lit ''Hi '']"
    by (simp add: ascii_tables_def chunk_eval)
  show ?thesis
    using ssml_branch_raises [OF 1 2 3] chirp_plain_text [OF 4 5, of ascii_tables "lit ''Hi''"] 6
    by simp
qed

text \<open>
  C7. A voice identifier that holds \<open>journey\<close>, each letter in either case, gets
  plain-text inputs too, one per chunk after the configuration request.
\<close>

theorem journey_plain_text:
  assumes "voice_id svc = pre @ mid @ post" and "anycase (lit ''journey'') mid"
  shows "create_streaming_request_generator U svc text
           = (ConfigRequest (language (settings svc)) (voice_id svc)
              # map TextInput (chunk_text (u_alnum U) text), None)"
  using anycase_is_in [OF assms, of "u_lower U"]
  by (simp add: create_streaming_request_generator_def use_ssml_def is_journey_voice_def
      request_loop_text)

theorem journey_plain_text_witness:
  "voice_id journey_svc = lit ''en-US-'' @ lit ''Journey'' @ lit ''-F''
   \<and> anycase (lit ''journey'') (lit ''Journey'')
   \<and> create_streaming_request_generator ascii_tables journey_svc (lit ''Hi'')
       = (ConfigRequest (language (settings journey_svc)) (voice_id journey_svc)
          # map TextInput (chunk_text (u_alnum ascii_tables) (lit ''Hi'')), None)"
proof -
  have h1: "voice_id journey_svc = lit ''en-US-'' @ lit ''Journey'' @ lit ''-F''"
    by (simp add: journey_svc_def lit_def)
  have h2: "anycase (lit ''journey'') (lit ''Journey'')"
    by (simp add: lit_def anycase_def)
  show ?thesis
    using h1 h2 journey_plain_text [OF h1 h2, of ascii_tables "lit ''Hi''"] by blast
qed

section \<open>A language that the table does not hold\<close>

text \<open>
  C10. When \<open>params.language\<close> is a language that is no key of the table, the language
  setting is \<open>None\<close>; it is \<open>en-US\<close> by default only when \<open>params.language\<close> is
  \<open>None\<close>. A service built so sends \<open>None\<close> as the language code of the configuration
  request, and its SSML names the language \<open>None\<close>.
\<close>

theorem unmapped_language_is_None:
  assumes "map_of language_map l = None"
  shows "language (init_settings (params\<lparr>param_language := Some l\<rparr>)) = None
    \<and> language (init_settings (params\<lparr>param_language := None\<rparr>)) = Some (lit ''en-US'')
    \<and> (GoogleTTSService_init True v r (params\<lparr>param_language := Some l\<rparr>) = Inr svc \<longrightarrow>
         hd (fst (create_streaming_request_generator U svc text)) = ConfigRequest None v
         \<and> (\<exists>rest. construct_ssml svc chunk
               = lit ''<speak><voice '' @ attr ''name'' v @ [SP]
                 @ attr ''language'' (lit ''None'') @ rest))"
proof -
  have 1: "language (init_settings (params\<lparr>param_language := Some l\<rparr>)) = None"
    using assms by (simp add: init_settings_def language_to_google_tts_language_def)
  have 2: "language (init_settings (params\<lparr>param_language := None\<rparr>)) = Some (lit ''en-US'')"
    by (simp add: init_settings_def)
  have 3: "hd (fst (create_streaming_request_generator U svc text)) = ConfigRequest None v
         \<and> (\<exists>rest. construct_ssml svc chunk
               = lit ''<speak><voice '' @ attr ''name'' v @ [SP]
                 @ attr ''language'' (lit ''None'') @ rest)"
    if "GoogleTTSService_init True v r (params\<lparr>param_language := Some l\<rparr>) = Inr svc"
  proof -
    from that have svc: "voice_id svc = v" "language (settings svc) = None"
      using 1 by (auto simp: GoogleTTSService_init_def)
    have "hd (fst (create_streaming_request_generator U svc text)) = ConfigRequest None v"
      by (simp add: create_streaming_request_generator_def svc split: prod.splits)
    moreover have "voice_attrs svc = [attr ''name'' v, attr ''language'' (lit ''None'')]
                  @ (if truthy (gender (settings svc))
                     then [attr ''gender'' (fmt (gender (settings svc)))] else [])"
      by (simp add: voice_attrs_def svc fmt_def)
    then have "\<exists>rest. join [SP] (voice_attrs svc)
                 = attr ''name'' v @ [SP] @ attr ''language'' (lit ''None'') @ rest"
      by simp
    then have "\<exists>rest. construct_ssml svc chunk
               = lit ''<speak><voice '' @ attr ''name'' v @ [SP]
                 @ attr ''language'' (lit ''None'') @ rest"
      unfolding construct_ssml_def by (auto simp: lit_def)
    ultimately show ?thesis by blast
  qed
  from 1 2 3 show ?thesis by blast
qed

theorem unmapped_language_is_None_witness:
  "map_of language_map ''ES_MX'' = None
   \<and> language (init_settings (InputParams_default\<lparr>param_language := Some ''ES_MX''\<rparr>)) = None
   \<and> GoogleTTSService_init True (lit ''en-US-Neural2-A'') 24000
        (InputParams_default\<lparr>param_language := Some ''ES_MX''\<rparr>) = Inr unmapped_svc
   \<and> hd (fst (create_streaming_request_generator ascii_tables unmapped_svc (lit ''Hi'')))
       = ConfigRequest None (lit ''en-US-Neural2-A'')
   \<and> (\<exists>rest. construct_ssml unmapped_svc (lit ''Hi '')
         = lit ''<speak><voice '' @ attr ''name'' (lit ''en-US-Neural2-A'') @ [SP]
           @ attr ''language'' (lit ''None'') @ rest)"
proof -
  have h: "map_of language_map ''ES_MX'' = None"
    by (simp add: language_map_def)
  have i: "GoogleTTSService_init True (lit ''en-US-Neural2-A'') 24000
        (InputParams_default\<lparr>param_language := Some ''ES_MX''\<rparr>) = Inr unmapped_svc"
    by (simp add: GoogleTTSService_init_def unmapped_svc_def unmapped_params_def)
  show ?thesis
    using h i
      unmapped_language_is_None [OF h, of InputParams_default "lit ''en-US-Neural2-A''" 24000
        unmapped_svc ascii_tables "lit ''Hi''" "lit ''Hi ''"]
    by blast
qed

section \<open>The synthesis call\<close>

lemma frames_append: "frames (xs @ ys) = frames xs @ frames ys"
  by (induction xs rule: frames.induct) simp_all

lemma frames_map_Yield: "frames (map Yield fs) = fs"
  by (induction fs) simp_all

lemma audio_frames_is_audio: "list_all is_audio (audio_frames svc a)"
  by (simp add: audio_frames_def list_all_iff)

lemma response_loop_frames:
  "\<exists>auds. frames (fst (response_loop E svc rs sent tr)) = frames tr @ auds \<and> list_all is_audio auds"
proof (induction rs arbitrary: sent tr)
  case Nil
  show ?case by simp
next
  case (Cons r rs)
  obtain a1 where a1: "frames (fst (response_loop E svc rs True (tr @ [CallStopTTFB] @ map Yield (audio_frames svc r))))
      = frames (tr @ [CallStopTTFB] @ map Yield (audio_frames svc r)) @ a1" "list_all is_audio a1"
    using Cons.IH by blast
  obtain a2 where a2: "frames (fst (response_loop E svc rs sent (tr @ map Yield (audio_frames svc r))))
      = frames (tr @ map Yield (audio_frames svc r)) @ a2" "list_all is_audio a2"
    using Cons.IH by blast
  show ?case
  proof (cases sent)
    case True
    have "frames (fst (response_loop E svc (r # rs) sent tr)) = frames tr @ (audio_frames svc r @ a2)"
      using True a2 by (simp add: frames_append frames_map_Yield)
    moreover have "list_all is_audio (audio_frames svc r @ a2)"
      using a2 audio_frames_is_audio by simp
    ultimately show ?thesis by blast
  next
    case False
    show ?thesis
    proof (cases "stop_ttfb_metrics E")
      case None
      have "frames (fst (response_loop E svc (r # rs) sent tr)) = frames tr @ (audio_frames svc r @ a1)"
        using False None a1 by (simp add: frames_append frames_map_Yield)
      moreover have "list_all is_audio (audio_frames svc r @ a1)"
        using a1 audio_frames_is_audio by simp
      ultimately show ?thesis by blast
    next
      case (Some e)
      have "frames (fst (response_loop E svc (r # rs) sent tr)) = frames tr @ []"
        using False Some by (simp add: frames_append)
      moreover have "list_all is_audio ([] :: Frame list)" by simp
      ultimately show ?thesis by blast
    qed
  qed
qed

text \<open>
  C8, as the claim states it, fails: when the timer for the first byte raises, which is
  a step inside the \<open>try\<close> that comes before the start marker, the call yields the error
  frame alone.
\<close>

theorem error_without_start_marker:
  "snd (run_tts_try ascii_tables failing_metrics sample_svc (lit ''Hi'')) = Some (Exception (lit ''no metrics''))
   \<and> frames (fst (run_tts ascii_tables failing_metrics sample_svc (lit ''Hi'')))
       = [ErrorFrame (lit ''Streaming TTS generation error: '' @ lit ''no metrics'')]"
  by (simp add: run_tts_def run_tts_try_def failing_metrics_def)

text \<open>
  C8, amended. When an \<open>Exception\<close> leaves the body of the \<open>try\<close>, nothing leaves the
  call. If the two metrics calls before the start marker returned, the frames are the
  start marker, then audio frames only, then one error frame that carries the message
  of the exception; there is no stop marker. If one of the two raised, the error frame
  is the only frame.
\<close>

theorem exception_becomes_error_frame:
  assumes "snd (run_tts_try U E svc text) = Some (Exception m)"
  shows "snd (run_tts U E svc text) = None
    \<and> (start_ttfb_metrics E = None \<and> start_tts_usage_metrics E text = None \<longrightarrow>
         (\<exists>auds. frames (fst (run_tts U E svc text))
                   = TTSStartedFrame # auds @ [ErrorFrame (lit ''Streaming TTS generation error: '' @ m)]
                 \<and> list_all is_audio auds))
    \<and> (start_ttfb_metrics E \<noteq> None \<or> start_tts_usage_metrics E text \<noteq> None \<longrightarrow>
         frames (fst (run_tts U E svc text))
           = [ErrorFrame (lit ''Streaming TTS generation error: '' @ m)])"
proof -
  let ?err = "ErrorFrame (lit ''Streaming TTS generation error: '' @ m)"
  obtain tr where tr: "run_tts_try U E svc text = (tr, Some (Exception m))"
    using assms by (cases "run_tts_try U E svc text") simp
  then have run: "run_tts U E svc text = (tr @ [Yield ?err], None)"
    by (simp add: run_tts_def)
  have started: "\<exists>auds. frames tr = TTSStartedFrame # auds \<and> list_all is_audio auds"
    if ok: "start_ttfb_metrics E = None" "start_tts_usage_metrics E text = None"
  proof -
    let ?tr0 = "[CallStartTTFB, CallStartUsage text, Yield TTSStartedFrame]"
    let ?reqs = "create_streaming_request_generator U svc text"
    show ?thesis
    proof (cases "streaming_synthesize E ?reqs")
      case (Inl e)
      with ok tr have "tr = ?tr0" by (simp add: run_tts_try_def Let_def)
      then show ?thesis by simp
    next
      case (Inr p)
      obtain rs fin where p: "p = (rs, fin)" by (cases p)
      obtain tr' ex where loop: "response_loop E svc rs False ?tr0 = (tr', ex)"
        by (cases "response_loop E svc rs False ?tr0")
      have "tr = tr'"
        using ok tr Inr p loop
        by (auto simp: run_tts_try_def Let_def split: option.splits)
      moreover obtain auds where "frames tr' = frames ?tr0 @ auds" "list_all is_audio auds"
        using response_loop_frames [of E svc rs False ?tr0] loop by auto
      ultimately show ?thesis by simp
    qed
  qed
  have early: "frames tr = []"
    if "start_ttfb_metrics E \<noteq> None \<or> start_tts_usage_metrics E text \<noteq> None"
    using that tr by (auto simp: run_tts_try_def split: option.splits)
  show ?thesis
    using run started early by (auto simp: frames_append)
qed

theorem exception_becomes_error_frame_witness:
  "snd (run_tts_try ascii_tables failing_remote sample_svc (lit ''Hi'')) = Some (Exception (lit ''unavailable''))
   \<and> snd (run_tts ascii_tables failing_remote sample_svc (lit ''Hi'')) = None
   \<and> start_ttfb_metrics failing_remote = None
   \<and> start_tts_usage_metrics failing_remote (lit ''Hi'') = None
   \<and> (\<exists>auds. frames (fst (run_tts ascii_tables failing_remote sample_svc (lit ''Hi'')))
                   = TTSStartedFrame # auds @ [ErrorFrame (lit ''Streaming TTS generation error: '' @ lit ''unavailable'')]
                 \<and> list_all is_audio auds)
   \<and> snd (run_tts_try ascii_tables failing_metrics sample_svc (lit ''Hi'')) = Some (Exception (lit ''no metrics''))
   \<and> start_ttfb_metrics failing_metrics \<noteq> None
   \<and> frames (fst (run_tts ascii_tables failing_metrics sample_svc (lit ''Hi'')))
           = [ErrorFrame (lit ''Streaming TTS generation error: '' @ lit ''no metrics'')]"
proof -
  have h1: "snd (run_tts_try ascii_tables failing_remote sample_svc (lit ''Hi'')) = Some (Exception (lit ''unavailable''))"
    by (simp add: run_tts_try_def failing_remote_def Let_def)
  have h2: "start_ttfb_metrics failing_remote = None \<and> start_tts_usage_metrics failing_remote (lit ''Hi'') = None"
    by (simp add: failing_remote_def)
  have h3: "snd (run_tts_try ascii_tables failing_metrics sample_svc (lit ''Hi'')) = Some (Exception (lit ''no metrics''))"
    by (simp add: run_tts_try_def failing_metrics_def)
  have h4: "start_ttfb_metrics failing_metrics \<noteq> None"
    by (simp add: failing_metrics_def)
  show ?thesis
    using h1 h2 h3 h4 exception_becomes_error_frame [OF h1] exception_becomes_error_frame [OF h3]
    by blast
qed

lemma count_Yield: "count_list (map Yield fs) CallStopTTFB = 0"
  by (induction fs) simp_all

lemma response_loop_count:
  "count_list (fst (response_loop E svc rs sent tr)) CallStopTTFB
     = count_list tr CallStopTTFB + (if \<not> sent \<and> rs \<noteq> [] then 1 else 0)"
proof (induction rs arbitrary: sent tr)
  case Nil
  show ?case by simp
next
  case (Cons r rs)
  show ?case
    by (cases "stop_ttfb_metrics E") (simp_all add: Cons.IH count_Yield)
qed

lemma response_loop_extends:
  "\<exists>post. fst (response_loop E svc rs sent tr) = tr @ post"
proof (induction rs arbitrary: sent tr)
  case Nil
  show ?case by simp
next
  case (Cons r rs)
  obtain p1 where p1: "fst (response_loop E svc rs True (tr @ [CallStopTTFB] @ map Yield (audio_frames svc r)))
      = (tr @ [CallStopTTFB] @ map Yield (audio_frames svc r)) @ p1"
    using Cons.IH by blast
  obtain p2 where p2: "fst (response_loop E svc rs sent (tr @ map Yield (audio_frames svc r)))
      = (tr @ map Yield (audio_frames svc r)) @ p2"
    using Cons.IH by blast
  show ?case
    using p1 p2 by (cases "stop_ttfb_metrics E") auto
qed

lemma run_tts_count:
  "count_list (fst (run_tts U E svc text)) CallStopTTFB
     = count_list (fst (run_tts_try U E svc text)) CallStopTTFB"
proof (cases "run_tts_try U E svc text")
  case (Pair tr ex)
  show ?thesis
  proof (cases ex)
    case None
    with Pair show ?thesis by (simp add: run_tts_def)
  next
    case (Some e)
    with Pair show ?thesis by (cases e) (simp_all add: run_tts_def)
  qed
qed

lemma run_tts_extends: "\<exists>post. fst (run_tts U E svc text) = fst (run_tts_try U E svc text) @ post"
proof (cases "run_tts_try U E svc text")
  case (Pair tr ex)
  show ?thesis
  proof (cases ex)
    case None
    with Pair show ?thesis by (simp add: run_tts_def)
  next
    case (Some e)
    with Pair show ?thesis by (cases e) (simp_all add: run_tts_def)
  qed
qed

text \<open>
  C9. The timer for the first byte is stopped once when the remote call has returned
  an iterator that delivers a response, and not at all otherwise: not when the iterator
  delivers nothing, not when the remote call raises, not when the call fails before
  it. When it is stopped, that is the first thing after the start marker, and the audio
  frames of the first response follow.
\<close>

theorem ttfb_stop_once:
  "count_list (fst (run_tts U E svc text)) CallStopTTFB
     = (if start_ttfb_metrics E = None \<and> start_tts_usage_metrics E text = None then
          (case streaming_synthesize E (create_streaming_request_generator U svc text) of
             Inl e \<Rightarrow> 0
           | Inr (responses, raised) \<Rightarrow> if responses = [] then 0 else 1)
        else 0)
   \<and> (start_ttfb_metrics E = None \<and> start_tts_usage_metrics E text = None
      \<and> streaming_synthesize E (create_streaming_request_generator U svc text) = Inr (r # rs, raised)
      \<longrightarrow> (\<exists>post. fst (run_tts U E svc text)
                    = [CallStartTTFB, CallStartUsage text, Yield TTSStartedFrame, CallStopTTFB] @ post
                  \<and> (stop_ttfb_metrics E = None \<longrightarrow> prefix (map Yield (audio_frames svc r)) post)))"
proof -
  let ?tr0 = "[CallStartTTFB, CallStartUsage text, Yield TTSStartedFrame]"
  let ?reqs = "create_streaming_request_generator U svc text"
  have try_loop: "fst (run_tts_try U E svc text) = fst (response_loop E svc rs False ?tr0)
                  \<or> fst (run_tts_try U E svc text) = fst (response_loop E svc rs False ?tr0) @ [Yield TTSStoppedFrame]"
    if "start_ttfb_metrics E = None" "start_tts_usage_metrics E text = None"
       "streaming_synthesize E ?reqs = Inr (rs, raised)" for rs raised
    using that
    by (cases "response_loop E svc rs False ?tr0")
       (auto simp: run_tts_try_def Let_def split: option.splits)
  have cnt: "count_list (fst (run_tts_try U E svc text)) CallStopTTFB
     = (if start_ttfb_metrics E = None \<and> start_tts_usage_metrics E text = None then
          (case streaming_synthesize E ?reqs of
             Inl e \<Rightarrow> 0
           | Inr (responses, raised) \<Rightarrow> if responses = [] then 0 else 1)
        else 0)"
  proof (cases "start_ttfb_metrics E = None \<and> start_tts_usage_metrics E text = None")
    case False
    then show ?thesis by (auto simp: run_tts_try_def split: option.splits)
  next
    case True
    show ?thesis
    proof (cases "streaming_synthesize E ?reqs")
      case (Inl e)
      with True show ?thesis by (simp add: run_tts_try_def Let_def)
    next
      case (Inr p)
      obtain rs fin where p: "p = (rs, fin)" by (cases p)
      have "count_list (fst (run_tts_try U E svc text)) CallStopTTFB
              = count_list (fst (response_loop E svc rs False ?tr0)) CallStopTTFB"
        using try_loop [of rs fin] True Inr p by auto
      then show ?thesis
        using True Inr p by (simp add: response_loop_count)
    qed
  qed
  have pos: "\<exists>post. fst (run_tts U E svc text) = (?tr0 @ [CallStopTTFB]) @ post
                  \<and> (stop_ttfb_metrics E = None \<longrightarrow> prefix (map Yield (audio_frames svc r)) post)"
    if ok: "start_ttfb_metrics E = None" "start_tts_usage_metrics E text = None"
       "streaming_synthesize E ?reqs = Inr (r # rs, raised)"
  proof -
    obtain p1 where p1: "fst (run_tts U E svc text) = fst (run_tts_try U E svc text) @ p1"
      using run_tts_extends by blast
    obtain p2 where p2: "fst (run_tts_try U E svc text) = fst (response_loop E svc (r # rs) False ?tr0) @ p2"
      using try_loop [OF ok] by auto
    show ?thesis
    proof (cases "stop_ttfb_metrics E")
      case (Some e)
      then show ?thesis using p1 p2 by simp
    next
      case None
      obtain p3 where "fst (response_loop E svc rs True (?tr0 @ [CallStopTTFB] @ map Yield (audio_frames svc r)))
          = (?tr0 @ [CallStopTTFB] @ map Yield (audio_frames svc r)) @ p3"
        using response_loop_extends by blast
      then have "fst (response_loop E svc (r # rs) False ?tr0)
          = (?tr0 @ [CallStopTTFB]) @ (map Yield (audio_frames svc r) @ p3)"
        using None by simp
      then have "fst (run_tts U E svc text)
          = (?tr0 @ [CallStopTTFB]) @ (map Yield (audio_frames svc r) @ p3 @ p2 @ p1)"
        using p1 p2 by simp
      then show ?thesis by (metis prefixI)
    qed
  qed
  show ?thesis
    using cnt pos by (simp add: run_tts_count)
qed

theorem ttfb_stop_once_witness:
  "start_ttfb_metrics one_response = None \<and> start_tts_usage_metrics one_response (lit ''Hi'') = None
   \<and> streaming_synthesize one_response (create_streaming_request_generator ascii_tables sample_svc (lit ''Hi''))
       = Inr ([1, 2, 3] # [], None)
   \<and> stop_ttfb_metrics one_response = None
   \<and> count_list (fst (run_tts ascii_tables one_response sample_svc (lit ''Hi''))) CallStopTTFB = 1
   \<and> (\<exists>post. fst (run_tts ascii_tables one_response sample_svc (lit ''Hi''))
                    = [CallStartTTFB, CallStartUsage (lit ''Hi''), Yield TTSStartedFrame, CallStopTTFB] @ post
                  \<and> prefix (map Yield (audio_frames sample_svc [1, 2, 3])) post)
   \<and> count_list (fst (run_tts ascii_tables no_response sample_svc (lit ''Hi''))) CallStopTTFB = 0"
proof -
  have h: "start_ttfb_metrics one_response = None \<and> start_tts_usage_metrics one_response (lit ''Hi'') = None
   \<and> streaming_synthesize one_response (create_streaming_request_generator ascii_tables sample_svc (lit ''Hi''))
       = Inr ([1, 2, 3] # [], None)"
    by (simp add: one_response_def)
  have h2: "stop_ttfb_metrics one_response = None" by (simp add: one_response_def)
  have g: "start_ttfb_metrics no_response = None \<and> start_tts_usage_metrics no_response (lit ''Hi'') = None
   \<and> streaming_synthesize no_response (create_streaming_request_generator ascii_tables sample_svc (lit ''Hi''))
       = Inr ([], None)"
    by (simp add: no_response_def)
  have c1: "count_list (fst (run_tts ascii_tables one_response sample_svc (lit ''Hi''))) CallStopTTFB = 1"
    using h ttfb_stop_once [of ascii_tables one_response sample_svc "lit ''Hi''" "[1, 2, 3]" "[]" None]
    by simp
  have c0: "count_list (fst (run_tts ascii_tables no_response sample_svc (lit ''Hi''))) CallStopTTFB = 0"
    using g ttfb_stop_once [of ascii_tables no_response sample_svc "lit ''Hi''" "[]" "[]" None]
    by simp
  show ?thesis
    using h h2 c1 c0
      ttfb_stop_once [of ascii_tables one_response sample_svc "lit ''Hi''" "[1, 2, 3]" "[]" None]
    by blast
qed

section \<open>Tokens\<close>

text \<open>
  The tokenizer returns a well-formed token list, and a well-formed token list is the
  tokenization of its own concatenation. So the words of a chunk, which is a run of
  tokens joined, are those tokens.
\<close>

lemma is_sep_not_word: "is_sep ext t \<Longrightarrow> \<not> is_word ext t"
  by (auto simp: is_sep_def is_word_def split: list.splits)

lemma is_sep_single: "is_sep ext [c] \<longleftrightarrow> \<not> is_wordchar ext c"
  by (simp add: is_sep_def)

lemma token_loop_word:
  "list_all (is_wordchar ext) w \<Longrightarrow>
   token_loop ext (w @ s) word toks = token_loop ext s (word @ w) toks"
  by (induction w arbitrary: word) simp_all

lemma token_loop_snoc_sep:
  "\<not> is_wordchar ext c \<Longrightarrow>
   token_loop ext (s @ [c]) word toks = token_loop ext s word toks @ [[c]]"
  by (induction s arbitrary: word toks) simp_all

lemma wf_tokens_snoc:
  "wf_tokens ext (ts @ [t]) \<longleftrightarrow>
     wf_tokens ext ts \<and> (is_word ext t \<or> is_sep ext t)
     \<and> (ts \<noteq> [] \<longrightarrow> \<not> (is_word ext (last ts) \<and> is_word ext t))"
  by (induction ext ts rule: wf_tokens.induct) auto

lemma wf_tokens_append:
  "wf_tokens ext (xs @ ys) \<Longrightarrow> wf_tokens ext xs \<and> wf_tokens ext ys"
proof (induction ext xs rule: wf_tokens.induct)
  case (1 ext)
  then show ?case by simp
next
  case (2 ext t)
  then show ?case by (cases ys) simp_all
next
  case (3 ext t u ts)
  then show ?case by simp
qed

lemma token_loop_wf:
  assumes "wf_tokens ext toks" and "toks = [] \<or> is_sep ext (last toks)"
    and "list_all (is_wordchar ext) word"
  shows "wf_tokens ext (token_loop ext s word toks)"
  using assms
proof (induction s arbitrary: word toks)
  case Nil
  show ?case
  proof (cases "word = []")
    case True
    then show ?thesis using Nil by simp
  next
    case False
    have "toks \<noteq> [] \<longrightarrow> \<not> is_word ext (last toks)"
      using Nil.prems(2) is_sep_not_word by blast
    moreover have "is_word ext word" using False Nil.prems(3) by (simp add: is_word_def)
    ultimately show ?thesis using False Nil.prems(1) by (simp add: wf_tokens_snoc)
  qed
next
  case (Cons c cs)
  show ?case
  proof (cases "is_wordchar ext c")
    case True
    then show ?thesis using Cons by simp
  next
    case False
    let ?toks = "(if word \<noteq> [] then toks @ [word] else toks) @ [[c]]"
    have nw: "toks \<noteq> [] \<longrightarrow> \<not> is_word ext (last toks)"
      using Cons.prems(2) is_sep_not_word by blast
    have sep: "is_sep ext [c]" "\<not> is_word ext [c]"
      using False by (simp_all add: is_sep_single is_word_def)
    have 1: "wf_tokens ext ?toks"
    proof (cases "word = []")
      case True
      then show ?thesis using Cons.prems(1) sep by (simp add: wf_tokens_snoc)
    next
      case False
      then have w: "is_word ext word" using Cons.prems(3) by (simp add: is_word_def)
      then have "wf_tokens ext (toks @ [word])"
        using Cons.prems(1) nw by (simp add: wf_tokens_snoc)
      then have "wf_tokens ext ((toks @ [word]) @ [[c]])"
        using sep wf_tokens_snoc [of ext "toks @ [word]" "[c]"] by simp
      then show ?thesis using False by simp
    qed
    have 2: "is_sep ext (last ?toks)" using False by (simp add: is_sep_single)
    have "wf_tokens ext (token_loop ext cs [] ?toks)"
      by (rule Cons.IH) (use 1 2 in simp_all)
    then show ?thesis using False by simp
  qed
qed

lemma tokenize_wf: "wf_tokens ext (tokenize ext s)"
  unfolding tokenize_def by (rule token_loop_wf) simp_all

lemma token_loop_retokenize:
  assumes "wf_tokens ext ts" and "word \<noteq> [] \<longrightarrow> ts = [] \<or> \<not> is_word ext (hd ts)"
  shows "token_loop ext (concat ts) word toks
           = toks @ (if word \<noteq> [] then [word] else []) @ ts"
  using assms
proof (induction ts arbitrary: word toks)
  case Nil
  then show ?case by simp
next
  case (Cons t ts)
  have wf_ts: "wf_tokens ext ts" using Cons.prems(1) wf_tokens_append [of ext "[t]" ts] by simp
  have kind: "is_word ext t \<or> is_sep ext t" using Cons.prems(1) by (cases ts) simp_all
  show ?case
  proof (cases "is_word ext t")
    case True
    then have w: "word = []" using Cons.prems(2) by auto
    have next_tok: "ts = [] \<or> \<not> is_word ext (hd ts)"
      using Cons.prems(1) True by (cases ts) simp_all
    have "token_loop ext (concat (t # ts)) word toks = token_loop ext (concat ts) t toks"
      using True w by (simp add: token_loop_word is_word_def)
    also have "\<dots> = toks @ (if t \<noteq> [] then [t] else []) @ ts"
      by (rule Cons.IH) (use wf_ts next_tok in simp_all)
    finally show ?thesis using True w by (simp add: is_word_def)
  next
    case False
    with kind obtain c where c: "t = [c]" "\<not> is_wordchar ext c"
      by (auto simp: is_sep_def split: list.splits)
    have "token_loop ext (concat (t # ts)) word toks
            = token_loop ext (concat ts) [] ((if word \<noteq> [] then toks @ [word] else toks) @ [[c]])"
      using c by simp
    also have "\<dots> = ((if word \<noteq> [] then toks @ [word] else toks) @ [[c]]) @ (if [] \<noteq> ([]::str) then [[]] else []) @ ts"
      by (rule Cons.IH) (use wf_ts in simp_all)
    finally show ?thesis using c by simp
  qed
qed

lemma tokenize_concat: "wf_tokens ext ts \<Longrightarrow> tokenize ext (concat ts) = ts"
  unfolding tokenize_def using token_loop_retokenize [of ext ts "[]" "[]"] by simp

lemma tokenize_snoc_sep:
  "\<not> is_wordchar ext c \<Longrightarrow> tokenize ext (s @ [c]) = tokenize ext s @ [[c]]"
  unfolding tokenize_def by (rule token_loop_snoc_sep)

lemma SP_no_wordchar: "\<not> is_wordchar ext SP"
  by (simp add: is_wordchar_def isalnum_cp_def)

lemma SP_not_real: "\<not> is_real_word ext [SP]"
  by (simp add: is_real_word_def strip_def isspace_cp_def)

lemma real_words_snoc_SP: "real_words ext (c @ [SP]) = real_words ext c"
  by (simp add: real_words_def tokenize_snoc_sep SP_no_wordchar SP_not_real)

lemma real_words_concat: "wf_tokens ext ts \<Longrightarrow> real_words ext (concat ts) = filter (is_real_word ext) ts"
  by (simp add: real_words_def tokenize_concat)

section \<open>Words per chunk and the trailing space\<close>

lemma group_loop_real_words:
  assumes "wf_tokens ext (cur @ toks)"
    and "length (filter (is_real_word ext) cur) = wc"
    and "wc < MAX_WORDS_PER_CHUNK"
    and "\<forall>c \<in> set chunks. length (real_words ext c) \<le> MAX_WORDS_PER_CHUNK"
  shows "\<forall>c \<in> set (group_loop ext toks cur wc chunks).
           length (real_words ext c) \<le> MAX_WORDS_PER_CHUNK"
  using assms
proof (induction toks arbitrary: cur wc chunks)
  case Nil
  have wf: "wf_tokens ext cur" using Nil.prems(1) by simp
  have "length (real_words ext (concat cur)) \<le> MAX_WORDS_PER_CHUNK"
    using Nil.prems(2,3) wf by (simp add: real_words_concat)
  then show ?case
    using Nil.prems(4) by (simp add: Let_def real_words_snoc_SP)
next
  case (Cons t rest)
  let ?cur = "cur @ [t]"
  let ?wc = "if is_real_word ext t then wc + 1 else wc"
  have wf_all: "wf_tokens ext (?cur @ rest)" using Cons.prems(1) by simp
  have wf_cur: "wf_tokens ext ?cur" using wf_all wf_tokens_append by blast
  have wf_rest: "wf_tokens ext ([] @ rest)" using wf_all wf_tokens_append [of ext ?cur rest] by simp
  have cnt: "length (filter (is_real_word ext) ?cur) = ?wc" using Cons.prems(2) by simp
  show ?case
  proof (cases "?wc = MAX_WORDS_PER_CHUNK")
    case False
    then have lt: "?wc < MAX_WORDS_PER_CHUNK" using Cons.prems(3) by (simp split: if_splits)
    have "\<forall>c \<in> set (group_loop ext rest ?cur ?wc chunks).
            length (real_words ext c) \<le> MAX_WORDS_PER_CHUNK"
      by (rule Cons.IH [OF wf_all cnt lt Cons.prems(4)])
    then show ?thesis using False by (simp add: Let_def)
  next
    case True
    have "real_words ext (concat ?cur) = filter (is_real_word ext) ?cur"
      by (rule real_words_concat [OF wf_cur])
    then have full: "length (real_words ext (concat ?cur)) \<le> MAX_WORDS_PER_CHUNK"
      using cnt True by (simp del: concat_append filter_append)
    have rec: "\<forall>c \<in> set (group_loop ext rest [] 0 (chunks @ [x])).
            length (real_words ext c) \<le> MAX_WORDS_PER_CHUNK"
      if "length (real_words ext x) \<le> MAX_WORDS_PER_CHUNK" for x
      by (rule Cons.IH [OF wf_rest]) (use that Cons.prems(4) in \<open>simp_all add: MAX_WORDS_PER_CHUNK_def\<close>)
    show ?thesis
    proof (cases "isspace t")
      case True
      with \<open>?wc = MAX_WORDS_PER_CHUNK\<close> rec [OF full] show ?thesis by (simp add: Let_def)
    next
      case False
      note nsp = this
      show ?thesis
      proof (cases "rest \<noteq> [] \<and> isspace (hd rest)")
        case True
        then obtain u us where rest: "rest = u # us" by (cases rest) auto
        have "wf_tokens ext ((?cur @ [u]) @ us)" using wf_all rest by simp
        then have "wf_tokens ext (?cur @ [u])" using wf_tokens_append by blast
        moreover have "\<not> is_real_word ext u" using True rest isspace_not_real_word by simp
        ultimately have "real_words ext (concat (?cur @ [u])) = filter (is_real_word ext) ?cur"
          using real_words_concat [of ext "?cur @ [u]"] by (simp del: concat_append)
        then have "length (real_words ext (concat (?cur @ [hd rest]))) \<le> MAX_WORDS_PER_CHUNK"
          using cnt \<open>?wc = MAX_WORDS_PER_CHUNK\<close> rest by (simp del: concat_append filter_append)
        from rec [OF this] True nsp \<open>?wc = MAX_WORDS_PER_CHUNK\<close> show ?thesis
          by (simp add: Let_def)
      next
        case False
        have "length (real_words ext (concat ?cur @ [SP])) \<le> MAX_WORDS_PER_CHUNK"
          by (subst real_words_snoc_SP) (rule full)
        from rec [OF this] False nsp \<open>?wc = MAX_WORDS_PER_CHUNK\<close> show ?thesis
          by (auto simp: Let_def)
      qed
    qed
  qed
qed

lemma foldl_chunk_sentence_real_words:
  "\<forall>c \<in> set acc. length (real_words ext c) \<le> MAX_WORDS_PER_CHUNK \<Longrightarrow>
   \<forall>c \<in> set (foldl (chunk_sentence ext) acc sents).
      length (real_words ext c) \<le> MAX_WORDS_PER_CHUNK"
proof (induction sents arbitrary: acc)
  case Nil
  then show ?case by simp
next
  case (Cons s sents)
  have "\<forall>c \<in> set (chunk_sentence ext acc s). length (real_words ext c) \<le> MAX_WORDS_PER_CHUNK"
    unfolding chunk_sentence_def
    by (rule group_loop_real_words) (use Cons.prems in \<open>simp_all add: tokenize_wf MAX_WORDS_PER_CHUNK_def\<close>)
  from Cons.IH [OF this] show ?case by simp
qed

text \<open>
  C3, as the claim states it, fails twice on the text of four apostrophes set apart by
  spaces, a full stop and two spaces. The first chunk, which is not the last, holds four
  maximal runs of alphanumeric-or-apostrophe characters, one more than
  \<open>MAX_WORDS_PER_CHUNK\<close>: a run without an alphanumeric character is not counted. The
  second chunk ends with two spaces: with one taken away it still ends with a space.
\<close>

theorem chunk_of_four_words_and_two_spaces:
  "chunk_text ascii_only [APOS, SP, APOS, SP, APOS, SP, APOS, 46, SP, SP]
     = [[APOS, SP, APOS, SP, APOS, SP, APOS, 46, SP], [SP, SP]]
   \<and> length (words ascii_only [APOS, SP, APOS, SP, APOS, SP, APOS, 46, SP]) = 4
   \<and> MAX_WORDS_PER_CHUNK = 3
   \<and> endswith_space (butlast [SP, SP])"
  by (simp add: chunk_eval words_def is_word_def)

text \<open>
  C3, amended. Every chunk, the last one too, ends with a space and holds at most
  \<open>MAX_WORDS_PER_CHUNK\<close> real words, a real word being a maximal run of
  alphanumeric-or-apostrophe characters with an alphanumeric character in it.
\<close>

theorem chunks_end_with_space_and_hold_three_words:
  "\<forall>c \<in> set (chunk_text ext text).
     endswith_space c \<and> length (real_words ext c) \<le> MAX_WORDS_PER_CHUNK"
proof
  fix c
  let ?raw = "foldl (chunk_sentence ext) [] (split_sentences text)"
  assume "c \<in> set (chunk_text ext text)"
  then have "c \<in> (\<lambda>c. if \<not> endswith_space c then c @ [SP] else c) ` set ?raw"
    unfolding chunk_text_def cleanup_def set_map .
  then obtain x where x: "x \<in> set ?raw" "c = (if \<not> endswith_space x then x @ [SP] else x)"
    by (rule imageE)
  have "\<forall>c \<in> set ?raw. length (real_words ext c) \<le> MAX_WORDS_PER_CHUNK"
    by (rule foldl_chunk_sentence_real_words) simp
  with x(1) have le: "length (real_words ext x) \<le> MAX_WORDS_PER_CHUNK" by blast
  show "endswith_space c \<and> length (real_words ext c) \<le> MAX_WORDS_PER_CHUNK"
  proof (cases "endswith_space x")
    case True
    with x(2) le show ?thesis by simp
  next
    case False
    then have c: "c = x @ [SP]" using x(2) by simp
    have "endswith_space (x @ [SP])" by (simp add: endswith_space_def)
    moreover have "length (real_words ext (x @ [SP])) \<le> MAX_WORDS_PER_CHUNK"
      by (subst real_words_snoc_SP) (rule le)
    ultimately show ?thesis using c by simp
  qed
qed

theorem chunks_end_with_space_and_hold_three_words_witness:
  "lit ''a b c '' \<in> set (chunk_text ascii_only (lit ''a b c d''))
   \<and> endswith_space (lit ''a b c '')
   \<and> length (real_words ascii_only (lit ''a b c '')) \<le> MAX_WORDS_PER_CHUNK"
proof -
  have h: "lit ''a b c '' \<in> set (chunk_text ascii_only (lit ''a b c d''))"
    by (simp add: chunk_eval)
  show ?thesis
    using h chunks_end_with_space_and_hold_three_words [of ascii_only "lit ''a b c d''"]
    by blast
qed

section \<open>Reading the text back from the chunks\<close>

lemma no_space_suffix: "\<not> endswith_space (xs @ ys) \<Longrightarrow> \<not> endswith_space ys"
  by (cases "ys = []") (simp_all add: endswith_space_def)

lemma boundary_no_space: "c \<in> set sentence_boundaries \<Longrightarrow> c \<noteq> SP"
  by (auto simp: sentence_boundaries_def)

lemma closer_no_space: "c \<in> set closers \<Longrightarrow> c \<noteq> SP"
  by (auto simp: closers_def)

text \<open>Only the last sentence of a text can end with a space, and only if the text does.\<close>

lemma split_loop_sentences:
  assumes "\<not> endswith_space (cur @ t)" and "\<forall>s \<in> set sents. \<not> endswith_space s"
  shows "\<forall>s \<in> set (split_loop t cur sents). \<not> endswith_space s"
  using assms
proof (induction t cur sents rule: split_loop.induct)
  case (1 cur sents)
  then show ?case by simp
next
  case (2 c rest cur sents)
  have e1: "\<not> endswith_space ([] @ rest)"
    using "2.prems"(1) no_space_suffix [of "cur @ [c]" rest] by simp
  have keep: "\<not> endswith_space ((cur @ [c]) @ rest)"
    using "2.prems"(1) by simp
  show ?case
  proof (cases "c = NL")
    case True
    have "\<forall>s \<in> set (sents @ [cur @ [c]]). \<not> endswith_space s"
      using "2.prems"(2) True by (simp add: endswith_space_def)
    from "2.IH"(1) [OF True e1 this] True show ?thesis by simp
  next
    case False
    note nl = this
    show ?thesis
    proof (cases "c \<in> set sentence_boundaries")
      case False
      from "2.IH"(5) [OF nl False keep "2.prems"(2)] nl False show ?thesis by simp
    next
      case True
      note bd = this
      have sent1: "\<forall>s \<in> set (sents @ [cur @ [c]]). \<not> endswith_space s"
        using "2.prems"(2) boundary_no_space [OF bd] by (simp add: endswith_space_def)
      show ?thesis
      proof (cases rest)
        case Nil
        from "2.IH"(2) [OF nl bd Nil] e1 sent1 nl bd Nil show ?thesis by simp
      next
        case (Cons d rest')
        show ?thesis
        proof (cases "d \<in> set closers")
          case True
          have e2: "\<not> endswith_space ([] @ rest')"
            using "2.prems"(1) Cons no_space_suffix [of "cur @ [c, d]" rest'] by simp
          have "\<forall>s \<in> set (sents @ [cur @ [c, d]]). \<not> endswith_space s"
            using "2.prems"(2) closer_no_space [OF True] by (simp add: endswith_space_def)
          from "2.IH"(3) [OF nl bd Cons True e2 this] nl bd Cons True show ?thesis by simp
        next
          case False
          from "2.IH"(4) [OF nl bd Cons False e1 sent1] nl bd Cons False show ?thesis by simp
        qed
      qed
    qed
  qed
qed

lemma token_loop_concat:
  "concat (token_loop ext s word toks) = concat toks @ word @ s"
  by (induction s arbitrary: word toks) simp_all

lemma tokenize_concat_id: "concat (tokenize ext s) = s"
  by (simp add: tokenize_def token_loop_concat)

lemma strip_one_snoc_SP: "strip_one (x @ [SP]) = x"
  by (simp add: strip_one_def endswith_space_def)

lemma cleanup_snoc: "cleanup (chunks @ [x @ [SP]]) = cleanup chunks @ [x @ [SP]]"
  by (simp add: cleanup_def endswith_space_def)

lemma strip_cleanup_snoc:
  "concat (map strip_one (cleanup (chunks @ [x @ [SP]])))
     = concat (map strip_one (cleanup chunks)) @ x"
  by (simp add: cleanup_snoc strip_one_snoc_SP)

text \<open>
  The grouping loop, when every whitespace token that comes directly after a closing
  token is a plain space and what is left to group does not end with a space.
\<close>

lemma group_loop_strip:
  assumes "\<forall>u \<in> set (after_closing ext toks wc). isspace u \<longrightarrow> u = [SP]"
    and "wc < MAX_WORDS_PER_CHUNK" and "\<not> endswith_space (concat (cur @ toks))"
  shows "concat (map strip_one (cleanup (group_loop ext toks cur wc chunks)))
           = concat (map strip_one (cleanup chunks)) @ concat cur @ concat toks"
  using assms
proof (induction toks arbitrary: cur wc chunks)
  case Nil
  show ?case
  proof (cases "cur = []")
    case True
    then show ?thesis by simp
  next
    case False
    have "group_loop ext [] cur wc chunks = chunks @ [concat cur @ [SP]]"
      using False Nil.prems(3) by (simp add: Let_def)
    then show ?thesis by (simp only: strip_cleanup_snoc) simp
  qed
next
  case (Cons t rest)
  let ?cur = "cur @ [t]"
  let ?wc = "if is_real_word ext t then wc + 1 else wc"
  have end_all: "\<not> endswith_space (concat (?cur @ rest))" using Cons.prems(3) by simp
  have end_rest: "\<not> endswith_space (concat ([] @ rest))"
    using Cons.prems(3) no_space_suffix [of "concat cur @ t" "concat rest"] by simp
  show ?case
  proof (cases "?wc = MAX_WORDS_PER_CHUNK")
    case False
    then have lt: "?wc < MAX_WORDS_PER_CHUNK" using Cons.prems(2) by (simp split: if_splits)
    have after: "\<forall>u \<in> set (after_closing ext rest ?wc). isspace u \<longrightarrow> u = [SP]"
      using Cons.prems(1) False by (simp add: Let_def)
    have "concat (map strip_one (cleanup (group_loop ext rest ?cur ?wc chunks)))
            = concat (map strip_one (cleanup chunks)) @ concat ?cur @ concat rest"
      by (rule Cons.IH [OF after lt end_all])
    then show ?thesis using False by (simp add: Let_def)
  next
    case True
    note full = this
    then have real: "is_real_word ext t" using Cons.prems(2) by (simp split: if_splits)
    then have nsp: "\<not> isspace t" using isspace_not_real_word by blast
    have after_all: "\<forall>u \<in> set ((if rest \<noteq> [] then [hd rest] else []) @ after_closing ext rest 0).
                       isspace u \<longrightarrow> u = [SP]"
      using Cons.prems(1) full by (simp add: Let_def)
    then have after: "\<forall>u \<in> set (after_closing ext rest 0). isspace u \<longrightarrow> u = [SP]"
      by simp
    have rec: "concat (map strip_one (cleanup (group_loop ext rest [] 0 (chunks @ [x @ [SP]]))))
                 = concat (map strip_one (cleanup chunks)) @ x @ concat rest" for x
    proof -
      have "concat (map strip_one (cleanup (group_loop ext rest [] 0 (chunks @ [x @ [SP]]))))
              = concat (map strip_one (cleanup (chunks @ [x @ [SP]]))) @ concat [] @ concat rest"
        by (rule Cons.IH [OF after _ end_rest]) (simp add: MAX_WORDS_PER_CHUNK_def)
      then show ?thesis by (simp only: strip_cleanup_snoc) simp
    qed
    show ?thesis
    proof (cases "rest \<noteq> [] \<and> isspace (hd rest)")
      case True
      then have "hd rest = [SP]" using after_all by simp
      then have "group_loop ext (t # rest) cur wc chunks
                   = group_loop ext rest [] 0 (chunks @ [(concat cur @ t) @ [SP]])"
        using full nsp True by (simp add: Let_def)
      then show ?thesis using rec [of "concat cur @ t"] by simp
    next
      case False
      then have "group_loop ext (t # rest) cur wc chunks
                   = group_loop ext rest [] 0 (chunks @ [(concat cur @ t) @ [SP]])"
        using full nsp by (auto simp: Let_def)
      then show ?thesis using rec [of "concat cur @ t"] by simp
    qed
  qed
qed

lemma foldl_chunk_sentence_strip:
  "\<forall>s \<in> set sents. \<not> endswith_space s
      \<and> (\<forall>u \<in> set (after_closing ext (tokenize ext s) 0). isspace u \<longrightarrow> u = [SP]) \<Longrightarrow>
   concat (map strip_one (cleanup (foldl (chunk_sentence ext) acc sents)))
     = concat (map strip_one (cleanup acc)) @ concat sents"
proof (induction sents arbitrary: acc)
  case Nil
  show ?case by simp
next
  case (Cons s sents)
  have "concat (map strip_one (cleanup (chunk_sentence ext acc s)))
          = concat (map strip_one (cleanup acc)) @ concat [] @ concat (tokenize ext s)"
    unfolding chunk_sentence_def
    by (rule group_loop_strip)
       (use Cons.prems in \<open>simp_all add: tokenize_concat_id MAX_WORDS_PER_CHUNK_def\<close>)
  then have 1: "concat (map strip_one (cleanup (chunk_sentence ext acc s)))
          = concat (map strip_one (cleanup acc)) @ s"
    by (simp add: tokenize_concat_id)
  have "concat (map strip_one (cleanup (foldl (chunk_sentence ext) (chunk_sentence ext acc s) sents)))
          = concat (map strip_one (cleanup (chunk_sentence ext acc s))) @ concat sents"
    by (rule Cons.IH) (use Cons.prems in simp)
  with 1 show ?case by simp
qed

text \<open>
  C1, as the claim states it, fails. In \<open>a \<close> the space at the end is part of the only
  chunk, so that no space is added and the one taken away is a character of the text:
  what is read back is \<open>a\<close>. In \<open>a b c\<close>, a tab, \<open>d\<close> the tab comes directly after the
  word that closes the first chunk: it ends that chunk and, since the assignment
  \<open>i += 1\<close> skips nothing, opens the next one too, and the space taken away is the one
  that the final pass has added after it, so the tab is read back twice.
\<close>

theorem trailing_space_and_tab_are_not_restored:
  "concat (map strip_one (chunk_text ascii_only (lit ''a ''))) \<noteq> lit ''a ''
   \<and> concat (map strip_one (chunk_text ascii_only [97, SP, 98, SP, 99, 9, 100]))
       \<noteq> [97, SP, 98, SP, 99, 9, 100]"
  by (simp add: chunk_eval strip_one_def)

text \<open>
  C1, amended. For a text that does not end with a space, and in which no whitespace
  character other than the plain space comes directly after a word that closes a
  chunk, the chunks with one trailing space taken from each, joined in order, are the
  text. Whitespace anywhere else, a tab or a newline after a word that closes no chunk
  among it, does not matter. Nothing is said of a text in which a tab, a newline or
  the like comes directly after a word that closes a chunk.
\<close>

theorem strip_one_space_and_join:
  assumes "\<not> endswith_space text"
    and "\<forall>u \<in> set (after_closing_words ext text). isspace u \<longrightarrow> u = [SP]"
  shows "concat (map strip_one (chunk_text ext text)) = text"
proof -
  have "\<forall>s \<in> set (split_sentences text). \<not> endswith_space s"
    unfolding split_sentences_def
    by (rule split_loop_sentences) (use assms(1) in simp_all)
  moreover have "\<forall>s \<in> set (split_sentences text).
                   \<forall>u \<in> set (after_closing ext (tokenize ext s) 0). isspace u \<longrightarrow> u = [SP]"
    using assms(2) by (simp add: after_closing_words_def)
  ultimately have "\<forall>s \<in> set (split_sentences text). \<not> endswith_space s
      \<and> (\<forall>u \<in> set (after_closing ext (tokenize ext s) 0). isspace u \<longrightarrow> u = [SP])"
    by blast
  then have "concat (map strip_one (cleanup (foldl (chunk_sentence ext) [] (split_sentences text))))
               = concat (map strip_one (cleanup [])) @ concat (split_sentences text)"
    by (rule foldl_chunk_sentence_strip)
  then show ?thesis
    by (simp add: chunk_text_def cleanup_def split_sentences_def split_loop_concat)
qed

theorem strip_one_space_and_join_witness:
  "\<not> endswith_space (lit ''Hello there'' @ [NL] @ lit ''How are you? a b c d'' @ [9] @ lit ''e'')
   \<and> after_closing_words ascii_only
         (lit ''Hello there'' @ [NL] @ lit ''How are you? a b c d'' @ [9] @ lit ''e'')
       = [[63], [SP]]
   \<and> concat (map strip_one (chunk_text ascii_only
               (lit ''Hello there'' @ [NL] @ lit ''How are you? a b c d'' @ [9] @ lit ''e'')))
       = lit ''Hello there'' @ [NL] @ lit ''How are you? a b c d'' @ [9] @ lit ''e''"
proof -
  let ?text = "lit ''Hello there'' @ [NL] @ lit ''How are you? a b c d'' @ [9] @ lit ''e''"
  have h1: "\<not> endswith_space ?text"
    by (simp add: char_eval)
  have a: "after_closing_words ascii_only ?text = [[63], [SP]]"
    by (simp add: after_closing_words_def chunk_eval)
  have h2: "\<forall>u \<in> set (after_closing_words ascii_only ?text). isspace u \<longrightarrow> u = [SP]"
    unfolding a by (simp add: char_eval)
  show ?thesis
    using h1 a strip_one_space_and_join [OF h1 h2] by blast
qed

text \<open>
  The two texts with whitespace after a word that closes no chunk, read back whole.
\<close>

lemma tab_after_first_word_is_restored:
  "concat (map strip_one (chunk_text ascii_only [97, 9, 98])) = [97, 9, 98]"
  by (simp add: chunk_eval strip_one_def)

lemma newline_after_second_word_is_restored:
  "concat (map strip_one (chunk_text ascii_only (lit ''Hello there'' @ [NL] @ lit ''How are you'')))
     = lit ''Hello there'' @ [NL] @ lit ''How are you''"
  by (simp add: chunk_eval strip_one_def)

end
